theory Spec2Isabelle
  imports Main "HOL-Library.Multiset" "HOL-Library.AList" "HOL-Library.Char_ord"
    "HOL-Library.List_Lexorder"
begin

section \<open>Errors and the environment of \<open>ru/utils.py\<close>\<close>

text \<open>
  Every exception a modelled function of \<open>ru/utils.py\<close> can raise is a value of
  \<open>error\<close>. The four \<open>ValueError\<close>s the module raises itself are told apart by
  their messages; the others come from Python and numpy.
\<close>

datatype error =
    ChannelOutOfBounds
      \<comment> \<open>\<open>ValueError("channel cannot be below 0 or above flowcell_size")\<close>\<close>
  | FlowcellSizeNotRecognised
      \<comment> \<open>\<open>ValueError("flowcell_size is not recognised")\<close>\<close>
  | SplitNotPositive
      \<comment> \<open>\<open>ValueError("split must be a positive integer")\<close>\<close>
  | CannotSplitEvenly
      \<comment> \<open>\<open>ValueError("The flowcell cannot be split evenly")\<close>\<close>
  | MaxEmptySequence
      \<comment> \<open>\<open>ValueError\<close> of \<open>max([])\<close>\<close>
  | NegativeDimensions
      \<comment> \<open>\<open>ValueError\<close> of \<open>np.zeros\<close> on a negative dimension\<close>
  | ChannelKeyError int
      \<comment> \<open>\<open>KeyError\<close> of a channel table\<close>
  | KeyError string
      \<comment> \<open>\<open>KeyError\<close> of a configuration dict\<close>
  | IndexError
  | TypeError
  | AttributeError
  | IntLiteralError string
      \<comment> \<open>\<open>ValueError\<close> of \<open>int(x)\<close>\<close>
  | FieldNameError
      \<comment> \<open>\<open>ValueError\<close> of \<open>namedtuple\<close> on a field name\<close>
  | NumpyValueError
      \<comment> \<open>\<open>ValueError\<close> of \<open>np.split\<close>\<close>
  | ZeroDivisionError
  | OSError
      \<comment> \<open>\<open>OSError\<close> of \<open>Path.is_file\<close>, as for a name that is too long\<close>
  | ReadError
      \<comment> \<open>\<open>OSError\<close> of \<open>open\<close>, or \<open>UnicodeDecodeError\<close> of reading the lines\<close>
  | LoadError
      \<comment> \<open>whatever \<open>toml.load\<close> raises\<close>
  | Unmodelled
      \<comment> \<open>an input outside the values this development covers\<close>

section \<open>Values\<close>

text \<open>
  A bound of a target interval is an \<open>int\<close> or \<open>float("inf")\<close>; an interval is the
  tuple that \<open>get_targets\<close> builds, of any length. A target map is the
  \<open>defaultdict\<close> from a strand to the \<open>defaultdict\<close> from a contig to its list of
  intervals. Dicts are association lists in insertion order, read with \<open>map_of\<close> and
  written with \<open>AList.update\<close> (a present key keeps its place, a new key goes last).
\<close>

datatype bound = Fin int | PosInf

type_synonym interval = "bound list"

type_synonym target_map = "(string \<times> (string \<times> interval list) list) list"

text \<open>
  The values of a configuration: what a TOML document holds, and the two kinds of object
  that \<open>get_run_info\<close> itself stores into a condition, a \<open>set\<close> of contig names and a
  target map. \<open>VOpaque\<close> is a value of any other type (a float, a date), of which only
  the truth value is ever read. A configuration is a tree: no dict is reachable under two
  keys.
\<close>

datatype val =
    VNone
  | VBool bool
  | VInt int
  | VStr string
  | VList "val list"
  | VDict "(string \<times> val) list"
  | VSet "string set"
  | VTargets target_map
  | VOpaque bool

type_synonym dict = "(string \<times> val) list"

text \<open>
  What the module reads from outside itself: the two channel tables of
  \<open>ru.channels\<close> (dicts from a channel to its \<open>(column, row)\<close>), the file system
  behind \<open>Path.is_file\<close> and \<open>open\<close> (each may raise: \<open>None\<close>), \<open>toml.load\<close>,
  the draws of \<open>random()\<close> (the \<open>i\<close>-th draw of a call, as a number that orders like
  the float), and the two tests \<open>str.isidentifier\<close> and \<open>keyword.iskeyword\<close> that
  \<open>namedtuple\<close> applies to field names.
\<close>

record env =
  FLONGLE_CHANNELS :: "int \<rightharpoonup> int \<times> int"
  MINION_CHANNELS :: "int \<rightharpoonup> int \<times> int"
  is_file :: "string \<Rightarrow> bool option"
  file_lines :: "string \<Rightarrow> string list option"
  toml_load :: "val \<Rightarrow> error + dict"
  random_draw :: "nat \<Rightarrow> nat"
  isidentifier :: "string \<Rightarrow> bool"
  iskeyword :: "string \<Rightarrow> bool"

section \<open>\<open>get_coords\<close>\<close>

definition table_lookup :: "(int \<rightharpoonup> int \<times> int) \<Rightarrow> int \<Rightarrow> error + int \<times> int" where
  "table_lookup tab channel =
     (case tab channel of None \<Rightarrow> Inl (ChannelKeyError channel) | Some cr \<Rightarrow> Inr cr)"

definition get_coords :: "env \<Rightarrow> int \<Rightarrow> int \<Rightarrow> error + int \<times> int" where
  "get_coords e channel flowcell_size =
     (if channel \<le> 0 \<or> channel > flowcell_size then Inl ChannelOutOfBounds
      else if flowcell_size = 3000 then
        (let block = (channel - 1) div 250;
             remainder = (channel - 1) mod 250;
             row = remainder div 10;
             column = remainder mod 10 + block * 10
         in Inr (column, row))
      else if flowcell_size = 126 then table_lookup (FLONGLE_CHANNELS e) channel
      else if flowcell_size = 512 then table_lookup (MINION_CHANNELS e) channel
      else Inl FlowcellSizeNotRecognised)"

section \<open>\<open>get_flowcell_array\<close>\<close>

text \<open>Sequencing of fallible steps: the first exception ends the computation.\<close>

definition and_then :: "error + 'a \<Rightarrow> ('a \<Rightarrow> error + 'b) \<Rightarrow> error + 'b" where
  "and_then m f = (case m of Inl err \<Rightarrow> Inl err | Inr x \<Rightarrow> f x)"

text \<open>A list comprehension whose element expression may raise.\<close>

fun collect :: "('a \<Rightarrow> error + 'b) \<Rightarrow> 'a list \<Rightarrow> error + 'b list" where
  "collect f [] = Inr []"
| "collect f (x # xs) =
     and_then (f x) (\<lambda>y. and_then (collect f xs) (\<lambda>ys. Inr (y # ys)))"

text \<open>
  \<open>max(seq, key=...)\<close>: the first element whose key is largest; \<open>ValueError\<close> on an
  empty sequence.
\<close>

fun max_by :: "('a \<Rightarrow> int) \<Rightarrow> 'a list \<Rightarrow> error + 'a" where
  "max_by key [] = Inl MaxEmptySequence"
| "max_by key (x # xs) =
     Inr (fold (\<lambda>y best. if key y > key best then y else best) xs x)"

text \<open>
  A 2-D \<open>ndarray\<close> of \<open>int\<close> is the list of its rows. The cells hold sums of channel
  numbers of a flowcell that \<open>get_coords\<close> accepts, at most \<open>3000 * 3001 / 2\<close>, so the
  64-bit cells never wrap and are modelled as \<open>int\<close>. An array with no row does not
  record its number of columns; \<open>get_flowcell_array\<close> returns none such (indexing it
  raises first).
\<close>

type_synonym ndarray = "int list list"

definition shape :: "ndarray \<Rightarrow> nat \<times> nat" where
  "shape arr = (length arr, (case arr of [] \<Rightarrow> 0 | r # _ \<Rightarrow> length r))"

definition np_zeros :: "int \<Rightarrow> int \<Rightarrow> error + ndarray" where
  "np_zeros nrows ncols =
     (if nrows < 0 \<or> ncols < 0 then Inl NegativeDimensions
      else Inr (replicate (nat nrows) (replicate (nat ncols) 0)))"

text \<open>
  An index into an axis of length \<open>n\<close>: a negative index counts from the end, and an
  index outside \<open>-n .. n - 1\<close> raises \<open>IndexError\<close> (here \<open>None\<close>).
\<close>

definition py_index :: "int \<Rightarrow> nat \<Rightarrow> nat option" where
  "py_index i n =
     (if 0 \<le> i \<and> i < int n then Some (nat i)
      else if - int n \<le> i \<and> i < 0 then Some (nat (i + int n))
      else None)"

text \<open>\<open>b[row][col] += chan\<close> for one \<open>(col, row, chan)\<close>.\<close>

definition add_at :: "ndarray \<Rightarrow> int \<times> int \<times> int \<Rightarrow> error + ndarray" where
  "add_at b crc =
     (case crc of (col, row, chan) \<Rightarrow>
        (case py_index row (length b) of
           None \<Rightarrow> Inl IndexError
         | Some r \<Rightarrow>
             (case py_index col (length (b ! r)) of
                None \<Rightarrow> Inl IndexError
              | Some c \<Rightarrow> Inr (b[r := (b ! r)[c := b ! r ! c + chan]]))))"

fun fill :: "ndarray \<Rightarrow> (int \<times> int \<times> int) list \<Rightarrow> error + ndarray" where
  "fill b [] = Inr b"
| "fill b (crc # rest) = and_then (add_at b crc) (\<lambda>b'. fill b' rest)"

definition channel_coords :: "env \<Rightarrow> int \<Rightarrow> error + (int \<times> int \<times> int) list" where
  "channel_coords e flowcell_size =
     collect (\<lambda>x. and_then (get_coords e x flowcell_size) (\<lambda>(col, row). Inr (col, row, x)))
       [1..flowcell_size]"

definition get_flowcell_array :: "env \<Rightarrow> int \<Rightarrow> error + ndarray" where
  "get_flowcell_array e flowcell_size =
     and_then (channel_coords e flowcell_size) (\<lambda>coords.
     and_then (max_by (\<lambda>(col, row, chan). row) coords) (\<lambda>by_row.
     and_then (max_by (\<lambda>(col, row, chan). col) coords) (\<lambda>by_col.
     and_then (np_zeros (fst (snd by_row) + 1) (fst by_col + 1)) (\<lambda>b.
     and_then (fill b coords) (\<lambda>b'. Inr (rev b'))))))"

section \<open>\<open>generate_flowcell\<close>\<close>

text \<open>\<open>list(range(start, stop, 2))\<close>.\<close>

definition range_step2 :: "int \<Rightarrow> int \<Rightarrow> int list" where
  "range_step2 start stop =
     map (\<lambda>i. start + 2 * int i) [0..<nat ((stop - start + 1) div 2)]"

text \<open>
  \<open>np.split(arr, sections, axis)\<close> on a 2-D array. \<open>arr.shape[axis]\<close> raises
  \<open>IndexError\<close> for an axis outside \<open>-2 .. 1\<close>; a length that \<open>sections\<close> does not
  divide raises numpy's \<open>ValueError\<close>; otherwise the array is cut into \<open>sections\<close>
  blocks of equal length along the axis: runs of rows for axis 0, runs of columns of
  every row for axis 1.
\<close>

definition np_split :: "ndarray \<Rightarrow> int \<Rightarrow> int \<Rightarrow> error + ndarray list" where
  "np_split arr sections axis =
     (case py_index axis 2 of
        None \<Rightarrow> Inl IndexError
      | Some ax \<Rightarrow>
          (let n = (if ax = 0 then fst (shape arr) else snd (shape arr)) in
           if sections = 0 then Inl ZeroDivisionError
           else if int n mod sections \<noteq> 0 \<or> sections < 0 then Inl NumpyValueError
           else
             (let k = nat sections; each = n div k in
              Inr (map (\<lambda>i. if ax = 0 then take each (drop (i * each) arr)
                             else map (\<lambda>r. take each (drop (i * each) r)) arr)
                     [0..<k]))))"

definition generate_flowcell :: "env \<Rightarrow> int \<Rightarrow> int \<Rightarrow> int \<Rightarrow> bool \<Rightarrow> error + int list list" where
  "generate_flowcell e flowcell_size split axis odd_even =
     (if odd_even then
        Inr [range_step2 1 (flowcell_size + 1), range_step2 2 (flowcell_size + 1)]
      else
        and_then (get_flowcell_array e flowcell_size) (\<lambda>arr.
          if split \<le> 0 then Inl SplitNotPositive
          else
            (let blocks = np_split arr split axis in
             if blocks = Inl NumpyValueError then Inl CannotSplitEvenly
             else and_then blocks (\<lambda>bs. Inr (map concat bs)))))"

text \<open>
  The \<open>try\<close> around \<open>np.split\<close> catches \<open>ValueError\<close> only, so the
  \<open>IndexError\<close> of an axis that a 2-D array does not have is raised as it is.
\<close>

section \<open>\<open>get_targets\<close>\<close>

text \<open>\<open>s.split(sep)\<close> for a separator of one character: never an empty list.\<close>

fun split_on :: "char \<Rightarrow> string \<Rightarrow> string list" where
  "split_on sep [] = [[]]"
| "split_on sep (c # cs) =
     (if c = sep then [] # split_on sep cs
      else (case split_on sep cs of [] \<Rightarrow> [[c]] | p # ps \<Rightarrow> (c # p) # ps))"

text \<open>
  A string is the list of its code points, all below 256. \<open>s.strip()\<close> removes the
  characters of \<open>str.isspace\<close> from both ends: tab to carriage return, the separators
  28 to 31, the space, NEL (133) and the no-break space (160).
\<close>

definition is_space :: "char \<Rightarrow> bool" where
  "is_space c \<longleftrightarrow>
     (of_char c :: nat) \<in> {9, 10, 11, 12, 13, 28, 29, 30, 31, 32, 133, 160}"

definition strip :: "string \<Rightarrow> string" where
  "strip s = rev (dropWhile is_space (rev (dropWhile is_space s)))"

text \<open>
  \<open>int(x)\<close> on a string: white space around, an optional sign, then decimal digits,
  where single underscores may stand between digits. The white space that \<open>int\<close>
  skips is that of \<open>str.isspace\<close> without the separators 28 to 31. The number of digits
  is not limited.
\<close>

definition is_int_space :: "char \<Rightarrow> bool" where
  "is_int_space c \<longleftrightarrow> (of_char c :: nat) \<in> {9, 10, 11, 12, 13, 32, 133, 160}"

definition digit_val :: "char \<Rightarrow> nat option" where
  "digit_val c =
     (let n = (of_char c :: nat) in if 48 \<le> n \<and> n \<le> 57 then Some (n - 48) else None)"

fun parse_digits :: "nat \<Rightarrow> string \<Rightarrow> nat option" where
  "parse_digits acc [] = Some acc"
| "parse_digits acc [c] = map_option (\<lambda>v. 10 * acc + v) (digit_val c)"
| "parse_digits acc (c # d # ds) =
     (if c = CHR ''_'' then
        (case digit_val d of None \<Rightarrow> None | Some v \<Rightarrow> parse_digits (10 * acc + v) ds)
      else
        (case digit_val c of None \<Rightarrow> None | Some v \<Rightarrow> parse_digits (10 * acc + v) (d # ds)))"

definition py_int :: "string \<Rightarrow> error + int" where
  "py_int x =
     (let t = rev (dropWhile is_int_space (rev (dropWhile is_int_space x)));
          negative = (t \<noteq> [] \<and> hd t = CHR ''-'');
          body = (if t \<noteq> [] \<and> (hd t = CHR ''-'' \<or> hd t = CHR ''+'') then tl t else t)
      in case body of
           [] \<Rightarrow> Inl (IntLiteralError x)
         | c # cs \<Rightarrow>
             (case digit_val c of
                None \<Rightarrow> Inl (IntLiteralError x)
              | Some v \<Rightarrow>
                  (case parse_digits v cs of
                     None \<Rightarrow> Inl (IntLiteralError x)
                   | Some n \<Rightarrow> Inr (if negative then - int n else int n))))"

text \<open>\<open>t[strand][ctg].append(iv)\<close> on the nested \<open>defaultdict\<close>.\<close>

definition append_target :: "target_map \<Rightarrow> string \<Rightarrow> string \<Rightarrow> interval \<Rightarrow> target_map" where
  "append_target t strand ctg iv =
     (let contigs = (case map_of t strand of None \<Rightarrow> [] | Some m \<Rightarrow> m);
          ivs = (case map_of contigs ctg of None \<Rightarrow> [] | Some l \<Rightarrow> l)
      in AList.update strand (AList.update ctg (ivs @ [iv]) contigs) t)"

text \<open>The body of the loop of \<open>get_targets\<close> for one item, a string.\<close>

definition parse_item :: "target_map \<Rightarrow> string \<Rightarrow> error + target_map" where
  "parse_item t item =
     (let parts = split_on CHR '','' item; ctg = hd parts; coords = tl parts in
      if coords \<noteq> [] then
        (let strand = last coords in
         and_then (collect py_int (butlast coords))
           (\<lambda>nums. Inr (append_target t strand ctg (map Fin nums))))
      else
        Inr (append_target (append_target t ''+'' ctg [Fin 0, PosInf])
               ''-'' ctg [Fin 0, PosInf]))"

text \<open>An item that is not a string has no \<open>split\<close>.\<close>

fun parse_items :: "target_map \<Rightarrow> val list \<Rightarrow> error + target_map" where
  "parse_items t [] = Inr t"
| "parse_items t (VStr item # rest) = and_then (parse_item t item) (\<lambda>t'. parse_items t' rest)"
| "parse_items t (_ # rest) = Inl AttributeError"

text \<open>
  The items \<open>for item in targets\<close> runs over. For a string, \<open>Path(targets).is_file()\<close>
  is asked first, which may raise; a string that names a file is replaced by the stripped
  lines of the file, if they can be read; any other string is iterated character by
  character; a list gives its elements and a dict its keys; \<open>None\<close>, a number and a
  boolean are not iterable. The iteration order of a \<open>set\<close> is not modelled.
\<close>

definition target_items :: "env \<Rightarrow> val \<Rightarrow> error + val list" where
  "target_items e targets =
     (case targets of
        VStr s \<Rightarrow>
          (case is_file e s of
             None \<Rightarrow> Inl OSError
           | Some True \<Rightarrow>
               (case file_lines e s of
                  None \<Rightarrow> Inl ReadError
                | Some lines \<Rightarrow> Inr (map (\<lambda>line. VStr (strip line)) lines))
           | Some False \<Rightarrow> Inr (map (\<lambda>c. VStr [c]) s))
      | VList items \<Rightarrow> Inr items
      | VDict d \<Rightarrow> Inr (map (\<lambda>kv. VStr (fst kv)) d)
      | VTargets t \<Rightarrow> Inr (map (\<lambda>kv. VStr (fst kv)) t)
      | VSet _ \<Rightarrow> Inl Unmodelled
      | _ \<Rightarrow> Inl TypeError)"

definition get_targets :: "env \<Rightarrow> val \<Rightarrow> error + target_map" where
  "get_targets e targets = and_then (target_items e targets) (parse_items [])"

text \<open>\<open>t[strand][ctg]\<close>, when both keys are present.\<close>

definition target_intervals :: "target_map \<Rightarrow> string \<Rightarrow> string \<Rightarrow> interval list option" where
  "target_intervals t strand ctg =
     (case map_of t strand of None \<Rightarrow> None | Some contigs \<Rightarrow> map_of contigs ctg)"

section \<open>\<open>get_run_info\<close>\<close>

text \<open>\<open>isinstance(v, dict)\<close>; a \<open>defaultdict\<close> is a dict.\<close>

definition is_dict :: "val \<Rightarrow> bool" where
  "is_dict v = (case v of VDict _ \<Rightarrow> True | VTargets _ \<Rightarrow> True | _ \<Rightarrow> False)"

text \<open>The truth value of an object.\<close>

definition truthy :: "val \<Rightarrow> bool" where
  "truthy v =
     (case v of
        VNone \<Rightarrow> False
      | VBool b \<Rightarrow> b
      | VInt i \<Rightarrow> i \<noteq> 0
      | VStr s \<Rightarrow> s \<noteq> []
      | VList l \<Rightarrow> l \<noteq> []
      | VDict d \<Rightarrow> d \<noteq> []
      | VSet S \<Rightarrow> S \<noteq> {}
      | VTargets t \<Rightarrow> t \<noteq> []
      | VOpaque b \<Rightarrow> b)"

text \<open>\<open>d.get(k, default)\<close>.\<close>

definition get_default :: "dict \<Rightarrow> string \<Rightarrow> val \<Rightarrow> val" where
  "get_default d k dflt = (case map_of d k of None \<Rightarrow> dflt | Some v \<Rightarrow> v)"

text \<open>The keys \<open>k\<close> of a dict with \<open>isinstance(d.get(k), dict)\<close>, in the order given.\<close>

definition dict_keys_of :: "dict \<Rightarrow> string list \<Rightarrow> string list" where
  "dict_keys_of d ks = filter (\<lambda>k. is_dict (get_default d k VNone)) ks"

text \<open>
  \<open>sort_func\<close>: \<open>sorted(L)\<close> when the order is maintained, and otherwise
  \<open>sorted(L, key=lambda k: random())\<close>, a stable sort on one draw per element.
\<close>

definition sort_func :: "env \<Rightarrow> bool \<Rightarrow> string list \<Rightarrow> string list" where
  "sort_func e maintain_order L =
     (if maintain_order then sort L
      else map fst (sort_key snd (zip L (map (random_draw e) [0..<length L]))))"

text \<open>
  \<open>named_tuple_generator\<close>: the named tuple is the list of its fields with their values;
  \<open>namedtuple\<close> refuses a field name that is not an identifier, is a keyword or starts
  with an underscore.
\<close>

definition valid_field_name :: "env \<Rightarrow> string \<Rightarrow> bool" where
  "valid_field_name e k \<longleftrightarrow>
     isidentifier e k \<and> \<not> iskeyword e k \<and> \<not> (k \<noteq> [] \<and> hd k = CHR ''_'')"

definition named_tuple_generator :: "env \<Rightarrow> val \<Rightarrow> error + dict" where
  "named_tuple_generator e dictionary =
     (case dictionary of
        VDict d \<Rightarrow> if list_all (valid_field_name e) (map fst d) then Inr d else Inl FieldNameError
      | _ \<Rightarrow> Inl Unmodelled)"

text \<open>The list \<open>_t\<close>: the contigs of every strand of \<open>coords\<close>.\<close>

definition contig_names :: "target_map \<Rightarrow> string list" where
  "contig_names coords = concat (map (\<lambda>kv. map fst (snd kv)) coords)"

text \<open>
  The body of the loop that converts the targets of one condition: \<open>coords\<close> is set to
  the parsed targets, and \<open>targets\<close> is replaced by the set of the contigs of \<open>coords\<close>.
  A value that is not a dict is skipped.
\<close>

definition convert_condition :: "env \<Rightarrow> val \<Rightarrow> error + val" where
  "convert_condition e cond =
     (case cond of
        VDict entries \<Rightarrow>
          (case map_of entries ''targets'' of
             None \<Rightarrow> Inl (KeyError ''targets'')
           | Some targets \<Rightarrow>
               and_then (get_targets e targets) (\<lambda>coords.
                 Inr (VDict (AList.update ''targets'' (VSet (set (contig_names coords)))
                        (AList.update ''coords'' (VTargets coords) entries)))))
      | VTargets _ \<Rightarrow> Inl Unmodelled
      | _ \<Rightarrow> Inr cond)"

text \<open>
  The loop over the condition keys. It works on the dict \<open>toml_dict["conditions"]\<close> in
  place: what it returns is that dict as the loop leaves it, and the exception that ended
  the loop, if any.
\<close>

fun convert_targets :: "env \<Rightarrow> dict \<Rightarrow> string list \<Rightarrow> dict \<times> error option" where
  "convert_targets e conds [] = (conds, None)"
| "convert_targets e conds (k # ks) =
     (case convert_condition e (get_default conds k VNone) of
        Inl err \<Rightarrow> (conds, Some err)
      | Inr cond \<Rightarrow>
          convert_targets e (if is_dict cond then AList.update k cond conds else conds) ks)"

text \<open>The dict comprehension that builds \<open>run_info\<close>.\<close>

definition build_run_info :: "int list list \<Rightarrow> dict list \<Rightarrow> (int \<times> nat) list" where
  "build_run_info split_channels split_conditions =
     fold (\<lambda>(pos, channels, condition) run_info.
             fold (\<lambda>channel ri. AList.update channel pos ri) channels run_info)
       (zip [0..<length (zip split_channels split_conditions)]
          (zip split_channels split_conditions))
       []"

type_synonym run_result = "(int \<times> nat) list \<times> dict list \<times> val"

text \<open>
  The part of \<open>get_run_info\<close> that works on \<open>toml_dict["conditions"]\<close>. It returns
  the dict as the call leaves it, and the result or the exception. The axis is handed to
  numpy as it is; only an \<open>int\<close> axis is modelled.
\<close>

definition run_info_of_conditions ::
    "env \<Rightarrow> dict \<Rightarrow> int \<Rightarrow> dict \<times> (error + run_result)" where
  "run_info_of_conditions e conds num_channels =
     (let conditions = dict_keys_of conds (map fst conds);
          maintain_order = truthy (get_default conds ''maintain_order'' (VBool True));
          axis = get_default conds ''axis'' (VInt 1)
      in case (case axis of
                 VInt a \<Rightarrow> generate_flowcell e num_channels (int (length conditions)) a False
               | _ \<Rightarrow> Inl Unmodelled) of
           Inl err \<Rightarrow> (conds, Inl err)
         | Inr split_channels \<Rightarrow>
             (case convert_targets e conds conditions of
                (conds', Some err) \<Rightarrow> (conds', Inl err)
              | (conds', None) \<Rightarrow>
                  (conds',
                   and_then
                     (collect (\<lambda>k. named_tuple_generator e (get_default conds' k VNone))
                        (dict_keys_of conds' (sort_func e maintain_order (map fst conds'))))
                     (\<lambda>split_conditions.
                        Inr (build_run_info split_channels split_conditions,
                             split_conditions,
                             get_default conds' ''reference'' VNone)))))"

text \<open>
  \<open>get_run_info\<close> returns its argument as the call leaves it, and the result or the
  exception. An argument that is not a dict is loaded with \<open>toml.load\<close> into a dict of
  the call's own, and is itself left alone.
\<close>

definition with_conditions :: "env \<Rightarrow> dict \<Rightarrow> int \<Rightarrow> dict \<times> (error + run_result)" where
  "with_conditions e toml_dict num_channels =
     (case map_of toml_dict ''conditions'' of
        None \<Rightarrow> (toml_dict, Inl (KeyError ''conditions''))
      | Some (VDict conds) \<Rightarrow>
          (case run_info_of_conditions e conds num_channels of
             (conds', r) \<Rightarrow> (AList.update ''conditions'' (VDict conds') toml_dict, r))
      | Some (VTargets _) \<Rightarrow> (toml_dict, Inl Unmodelled)
      | Some _ \<Rightarrow> (toml_dict, Inl AttributeError))"

definition get_run_info :: "env \<Rightarrow> val \<Rightarrow> int \<Rightarrow> val \<times> (error + run_result)" where
  "get_run_info e toml_dict_or_filepath num_channels =
     (case toml_dict_or_filepath of
        VDict toml_dict \<Rightarrow>
          (case with_conditions e toml_dict num_channels of (d, r) \<Rightarrow> (VDict d, r))
      | VTargets _ \<Rightarrow> (toml_dict_or_filepath, Inl Unmodelled)
      | _ \<Rightarrow>
          (toml_dict_or_filepath,
           and_then (toml_load e toml_dict_or_filepath)
             (\<lambda>toml_dict. snd (with_conditions e toml_dict num_channels))))"

section \<open>An environment for the closed examples\<close>

text \<open>
  The tables of \<open>ru/channels.py\<close> are not part of the source at hand. The closed
  examples below run in an environment where no path names a file and with two regular stand-in
  tables of the documented extents (13 columns by 10 rows for 126 channels, 32 columns
  by 16 rows for 512), filled row by row.
\<close>

definition sample_table :: "int \<Rightarrow> int \<Rightarrow> int \<rightharpoonup> int \<times> int" where
  "sample_table n ncols channel =
     (if 1 \<le> channel \<and> channel \<le> n
      then Some ((channel - 1) mod ncols, (channel - 1) div ncols) else None)"

text \<open>
  The identifiers of ASCII letters, digits and underscores, and the keywords of
  Python 3.
\<close>

definition ascii_identifier :: "string \<Rightarrow> bool" where
  "ascii_identifier k \<longleftrightarrow>
     k \<noteq> [] \<and>
     list_all (\<lambda>c. let n = (of_char c :: nat) in
                  (65 \<le> n \<and> n \<le> 90) \<or> (97 \<le> n \<and> n \<le> 122) \<or> n = 95 \<or> (48 \<le> n \<and> n \<le> 57)) k \<and>
     \<not> (48 \<le> (of_char (hd k) :: nat) \<and> (of_char (hd k) :: nat) \<le> 57)"

definition python_keywords :: "string list" where
  "python_keywords =
     [''False'', ''None'', ''True'', ''and'', ''as'', ''assert'', ''async'', ''await'',
      ''break'', ''class'', ''continue'', ''def'', ''del'', ''elif'', ''else'', ''except'',
      ''finally'', ''for'', ''from'', ''global'', ''if'', ''import'', ''in'', ''is'',
      ''lambda'', ''nonlocal'', ''not'', ''or'', ''pass'', ''raise'', ''return'', ''try'',
      ''while'', ''with'', ''yield'']"

definition sample_env :: env where
  "sample_env =
     \<lparr>FLONGLE_CHANNELS = sample_table 126 13, MINION_CHANNELS = sample_table 512 32,
      is_file = (\<lambda>_. Some False), file_lines = (\<lambda>_. None), toml_load = (\<lambda>_. Inl LoadError),
      random_draw = (\<lambda>i. i), isidentifier = ascii_identifier,
      iskeyword = (\<lambda>k. k \<in> set python_keywords)\<rparr>"

text \<open>
  A configuration with one condition and no \<open>reference\<close>, and what
  \<open>get_run_info\<close> leaves of it.
\<close>

definition sample_conditions :: dict where
  "sample_conditions =
     [(''axis'', VInt 1),
      (''0'', VDict [(''name'', VStr ''a''), (''targets'', VList [VStr ''chr1,10,20,+''])])]"

definition sample_config :: val where
  "sample_config = VDict [(''conditions'', VDict sample_conditions)]"

definition sample_condition :: dict where
  "sample_condition =
     [(''name'', VStr ''a''),
      (''targets'', VSet {''chr1''}),
      (''coords'', VTargets [(''+'', [(''chr1'', [[Fin 10, Fin 20]])])])]"

definition sample_config_after :: val where
  "sample_config_after =
     VDict [(''conditions'', VDict [(''axis'', VInt 1), (''0'', VDict sample_condition)])]"

text \<open>
  A configuration with two conditions on the default axis, and the two conditions as
  \<open>get_run_info\<close> returns them.
\<close>

definition sample_conditions2 :: dict where
  "sample_conditions2 =
     [(''axis'', VInt 1),
      (''0'', VDict [(''name'', VStr ''a''), (''targets'', VList [VStr ''chr1,10,20,+''])]),
      (''1'', VDict [(''name'', VStr ''b''), (''targets'', VList [VStr ''chr2,5,15,-''])])]"

definition sample_config2 :: val where
  "sample_config2 = VDict [(''conditions'', VDict sample_conditions2)]"

definition sample_condition_b :: dict where
  "sample_condition_b =
     [(''name'', VStr ''b''),
      (''targets'', VSet {''chr2''}),
      (''coords'', VTargets [(''-'', [(''chr2'', [[Fin 5, Fin 15]])])])]"

section \<open>Notions used in the statements\<close>

text \<open>
  A grid of \<open>h\<close> rows of \<open>w\<close> cells each.
\<close>

definition rect :: "nat \<Rightarrow> nat \<Rightarrow> 'a list list \<Rightarrow> bool" where
  "rect h w b \<longleftrightarrow> length b = h \<and> (\<forall>r\<in>set b. length r = w)"

text \<open>
  What the grid builder needs of the coordinates \<open>f\<close> of a flowcell size \<open>n\<close>:
  \<open>get_coords\<close> returns them for the channels from 1 to \<open>n\<close>, they lie in a grid of
  \<open>h\<close> rows and \<open>w\<close> columns, and the last row and the last column are reached.
\<close>

definition layout :: "env \<Rightarrow> int \<Rightarrow> (int \<Rightarrow> int \<times> int) \<Rightarrow> nat \<Rightarrow> nat \<Rightarrow> bool" where
  "layout e n f h w \<longleftrightarrow>
     1 \<le> n \<and>
     (\<forall>x. 1 \<le> x \<and> x \<le> n \<longrightarrow>
        get_coords e x n = Inr (f x) \<and>
        0 \<le> fst (f x) \<and> fst (f x) < int w \<and> 0 \<le> snd (f x) \<and> snd (f x) < int h) \<and>
     (\<exists>x. 1 \<le> x \<and> x \<le> n \<and> fst (f x) = int w - 1) \<and>
     (\<exists>x. 1 \<le> x \<and> x \<le> n \<and> snd (f x) = int h - 1)"

text \<open>
  The coordinates that \<open>get_coords\<close> computes for the size 3000.
\<close>

definition promethion_coords :: "int \<Rightarrow> int \<times> int" where
  "promethion_coords x = ((x - 1) mod 250 mod 10 + (x - 1) div 250 * 10, (x - 1) mod 250 div 10)"

text \<open>
  Modelled from the spec: the channel tables of \<open>ru/channels.py\<close> are not in the
  source. The spec has a coordinate as a pair of non-negative integers inside a rectangular
  grid, and the docstring of \<open>get_flowcell_array\<close> gives the grids of the sizes 126 and
  512 as 13 by 10 and 32 by 16. A table covers a grid of \<open>ncols\<close> columns and
  \<open>nrows\<close> rows when it gives every channel from 1 to \<open>n\<close> a cell of the grid and
  reaches the last column and the last row.
\<close>

definition table_covers :: "(int \<rightharpoonup> int \<times> int) \<Rightarrow> int \<Rightarrow> nat \<Rightarrow> nat \<Rightarrow> bool" where
  "table_covers tab n ncols nrows \<longleftrightarrow>
     (\<forall>x\<in>{1..n}. case tab x of None \<Rightarrow> False
        | Some (col, row) \<Rightarrow> 0 \<le> col \<and> col < int ncols \<and> 0 \<le> row \<and> row < int nrows) \<and>
     (\<exists>x\<in>{1..n}. case tab x of None \<Rightarrow> False | Some (col, row) \<Rightarrow> col = int ncols - 1) \<and>
     (\<exists>x\<in>{1..n}. case tab x of None \<Rightarrow> False | Some (col, row) \<Rightarrow> row = int nrows - 1)"

text \<open>
  The loop behind \<open>build_run_info\<close>, from any starting dict.
\<close>

definition assign_groups ::
    "(nat \<times> int list \<times> 'c) list \<Rightarrow> (int \<times> nat) list \<Rightarrow> (int \<times> nat) list" where
  "assign_groups ps ri =
     fold (\<lambda>(pos, channels, condition) run_info.
             fold (\<lambda>channel ri. AList.update channel pos ri) channels run_info) ps ri"

text \<open>
  Modelled from the spec: the flowcell sizes whose channels have a known place. For 3000
  the code computes the coordinates; for 512 and 126 the table must cover its grid and,
  as the spec has coordinates unique per channel, give no two channels the same entry.
\<close>

definition channels_laid_out :: "env \<Rightarrow> int \<Rightarrow> bool" where
  "channels_laid_out e n \<longleftrightarrow>
     n = 3000 \<or>
     (n = 512 \<and> table_covers (MINION_CHANNELS e) 512 32 16 \<and>
        distinct (map (MINION_CHANNELS e) [1..512])) \<or>
     (n = 126 \<and> table_covers (FLONGLE_CHANNELS e) 126 13 10 \<and>
        distinct (map (FLONGLE_CHANNELS e) [1..126]))"


section \<open>Lemmas on the grid builder\<close>

lemma and_then_Inr_iff:
  "and_then m f = Inr y \<longleftrightarrow> (\<exists>x. m = Inr x \<and> f x = Inr y)"
  by (cases m) (simp_all add: and_then_def)

lemma and_then_Inr [simp]: "and_then (Inr x) f = f x"
  by (simp add: and_then_def)

lemma and_then_Inl [simp]: "and_then (Inl err) f = Inl err"
  by (simp add: and_then_def)

lemma collect_all_Inr:
  "(\<And>x. x \<in> set xs \<Longrightarrow> f x = Inr (g x)) \<Longrightarrow> collect f xs = Inr (map g xs)"
  by (induction xs) simp_all

lemma collect_first_Inl:
  "f x = Inl err \<Longrightarrow> collect f (x # xs) = Inl err"
  by simp

lemma fold_max_by:
  "fold (\<lambda>y best. if key y > key best then y else best) xs x \<in> set (x # xs) \<and>
   (\<forall>y\<in>set (x # xs).
      (key y :: int) \<le> key (fold (\<lambda>y best. if key y > key best then y else best) xs x))"
proof (induction xs arbitrary: x)
  case Nil
  show ?case by simp
next
  case (Cons a xs)
  let ?x' = "if key a > key x then a else x"
  let ?r = "fold (\<lambda>y best. if key y > key best then y else best) xs ?x'"
  have r: "?r \<in> set (?x' # xs)" and ge: "\<forall>y\<in>set (?x' # xs). key y \<le> key ?r"
    using Cons [of ?x'] by blast+
  have "key ?x' \<le> key ?r" using ge by simp
  then have "key x \<le> key ?r" "key a \<le> key ?r" by (simp_all split: if_splits)
  moreover have "\<forall>y\<in>set xs. key y \<le> key ?r" using ge by simp
  moreover have "?r \<in> set (x # a # xs)" using r by (auto split: if_splits)
  ultimately show ?case by simp
qed

lemma max_by_key:
  assumes "xs \<noteq> []" and "\<forall>y\<in>set xs. key y \<le> m" and "\<exists>y\<in>set xs. key y = m"
  shows "\<exists>b. max_by key xs = Inr b \<and> b \<in> set xs \<and> key b = m"
proof -
  from assms(1) obtain x rest where xs: "xs = x # rest" by (cases xs) auto
  let ?b = "fold (\<lambda>y best. if key y > key best then y else best) rest x"
  have mem: "?b \<in> set xs" unfolding xs using fold_max_by [of key rest x] by blast
  from assms(3) obtain y where y: "y \<in> set xs" "key y = m" by auto
  have "key y \<le> key ?b" using y(1) fold_max_by [of key rest x] unfolding xs by blast
  moreover have "key ?b \<le> m" using assms(2) mem by auto
  ultimately have "key ?b = m" using y(2) by simp
  then show ?thesis using mem by (simp add: xs)
qed

lemma mset_list_update_add:
  assumes "c < length xs"
  shows "mset (xs[c := v]) + {#xs ! c#} = mset xs + {#v#}"
proof -
  have "mset xs = mset (take c xs @ xs ! c # drop (Suc c) xs)"
    using assms by (simp only: id_take_nth_drop [symmetric])
  moreover have "mset (xs[c := v]) = mset (take c xs @ v # drop (Suc c) xs)"
    using assms by (simp only: upd_conv_take_nth_drop)
  ultimately show ?thesis by simp
qed

lemma mset_concat_update_add:
  assumes "r < length b"
  shows "mset (concat (b[r := x])) + mset (b ! r) = mset (concat b) + mset x"
proof -
  have "mset (concat b) = mset (concat (take r b @ b ! r # drop (Suc r) b))"
    using assms by (simp only: id_take_nth_drop [symmetric])
  moreover have "mset (concat (b[r := x])) = mset (concat (take r b @ x # drop (Suc r) b))"
    using assms by (simp only: upd_conv_take_nth_drop)
  ultimately show ?thesis by simp
qed

lemma py_index_in_range: "0 \<le> i \<Longrightarrow> i < int n \<Longrightarrow> py_index i n = Some (nat i)"
  by (simp add: py_index_def)

lemma add_at_in_range:
  assumes "rect h w b" "0 \<le> col" "col < int w" "0 \<le> row" "row < int h"
  shows "add_at b (col, row, chan) =
           Inr (b[nat row := (b ! nat row)[nat col := b ! nat row ! nat col + chan]])"
proof -
  have r: "nat row < length b" using assms by (simp add: rect_def)
  then have "length (b ! nat row) = w" using assms(1) by (simp add: rect_def)
  then show ?thesis
    using assms by (simp add: add_at_def py_index_in_range rect_def)
qed

lemma rect_update:
  "rect h w b \<Longrightarrow> r < h \<Longrightarrow> rect h w (b[r := (b ! r)[c := v]])"
  by (auto simp: rect_def set_update_memI dest!: set_update_subset_insert [THEN subsetD])

lemma add_at_mset:
  assumes "rect h w (b :: int list list)" "r < h" "c < w" "b ! r ! c = 0"
  shows "mset (concat (b[r := (b ! r)[c := b ! r ! c + chan]])) + {#0#} =
           mset (concat b) + {#chan#}"
proof -
  have rl: "r < length b" and cl: "c < length (b ! r)"
    using assms by (simp_all add: rect_def)
  have "mset (concat (b[r := (b ! r)[c := chan]])) + mset (b ! r) + {#b ! r ! c#} =
          mset (concat b) + (mset ((b ! r)[c := chan]) + {#b ! r ! c#})"
    using mset_concat_update_add [OF rl, of "(b ! r)[c := chan]"] by simp
  also have "\<dots> = mset (concat b) + (mset (b ! r) + {#chan#})"
    using mset_list_update_add [OF cl, of chan] by simp
  finally show ?thesis using assms(4) by simp
qed

lemma fill_in_range:
  assumes "rect h w b"
    and "\<forall>(col, row, chan)\<in>set cs. 0 \<le> col \<and> col < int w \<and> 0 \<le> row \<and> row < int h"
    and "distinct (map (\<lambda>(col, row, chan). (col, row)) cs)"
    and "\<forall>(col, row, chan)\<in>set cs. b ! nat row ! nat col = 0"
  shows "\<exists>b'. fill b cs = Inr b' \<and> rect h w b' \<and>
           mset (concat b') + replicate_mset (length cs) 0 =
             mset (concat b) + mset (map (\<lambda>(col, row, chan). chan) cs)"
  using assms
proof (induction cs arbitrary: b)
  case Nil
  then show ?case by simp
next
  case (Cons crc cs)
  obtain col row chan where crc: "crc = (col, row, chan)" by (cases crc) auto
  have rng: "0 \<le> col" "col < int w" "0 \<le> row" "row < int h"
    using Cons.prems(2) by (simp_all add: crc)
  let ?b1 = "b[nat row := (b ! nat row)[nat col := b ! nat row ! nat col + chan]]"
  have step: "add_at b crc = Inr ?b1"
    unfolding crc using Cons.prems(1) rng by (rule add_at_in_range)
  have r1: "rect h w ?b1" using Cons.prems(1) rng by (intro rect_update) auto
  have zero: "b ! nat row ! nat col = 0" using Cons.prems(4) by (simp add: crc)
  have m1: "mset (concat ?b1) + {#0#} = mset (concat b) + {#chan#}"
    using Cons.prems(1) rng zero by (intro add_at_mset [of h w]) auto
  have others: "\<forall>(col', row', chan')\<in>set cs. ?b1 ! nat row' ! nat col' = 0"
  proof (clarify)
    fix col' row' chan'
    assume mem: "(col', row', chan') \<in> set cs"
    then have ne: "(col', row') \<noteq> (col, row)"
      using Cons.prems(3) by (force simp: crc)
    have rng': "0 \<le> col'" "col' < int w" "0 \<le> row'" "row' < int h"
      using Cons.prems(2) mem by auto
    have z': "b ! nat row' ! nat col' = 0" using Cons.prems(4) mem by auto
    have lb: "nat row < length b" "nat row' < length b"
      using Cons.prems(1) rng rng' by (simp_all add: rect_def)
    then have lr: "nat col < length (b ! nat row)" 
      using Cons.prems(1) rng by (simp add: rect_def)
    show "?b1 ! nat row' ! nat col' = 0"
    proof (cases "row' = row")
      case True
      then have "col' \<noteq> col" using ne by simp
      then have "nat col' \<noteq> nat col" using rng rng' by simp
      then show ?thesis using True lb z' by simp
    next
      case False
      then have "nat row' \<noteq> nat row" using rng rng' by simp
      then show ?thesis using lb z' by simp
    qed
  qed
  have "\<exists>b'. fill ?b1 cs = Inr b' \<and> rect h w b' \<and>
           mset (concat b') + replicate_mset (length cs) 0 =
             mset (concat ?b1) + mset (map (\<lambda>(col, row, chan). chan) cs)"
    using r1 Cons.prems(2,3) others by (intro Cons.IH) auto
  then obtain b' where b': "fill ?b1 cs = Inr b'" "rect h w b'"
    "mset (concat b') + replicate_mset (length cs) 0 =
       mset (concat ?b1) + mset (map (\<lambda>(col, row, chan). chan) cs)"
    by blast
  have "mset (concat b') + replicate_mset (length (crc # cs)) 0 =
          (mset (concat b') + replicate_mset (length cs) 0) + {#0#}" by simp
  also have "\<dots> = (mset (concat ?b1) + {#0#}) + mset (map (\<lambda>(col, row, chan). chan) cs)"
    using b'(3) by simp
  also have "\<dots> = mset (concat b) + mset (map (\<lambda>(col, row, chan). chan) (crc # cs))"
    using m1 by (simp add: crc)
  finally show ?case using step b'(1,2) by auto
qed

lemma fill_rect:
  assumes "rect h w b"
    and "\<forall>(col, row, chan)\<in>set cs. 0 \<le> col \<and> col < int w \<and> 0 \<le> row \<and> row < int h"
  shows "\<exists>b'. fill b cs = Inr b' \<and> rect h w b'"
  using assms
proof (induction cs arbitrary: b)
  case Nil
  then show ?case by simp
next
  case (Cons crc cs)
  obtain col row chan where crc: "crc = (col, row, chan)" by (cases crc) auto
  have rng: "0 \<le> col" "col < int w" "0 \<le> row" "row < int h"
    using Cons.prems(2) by (simp_all add: crc)
  let ?b1 = "b[nat row := (b ! nat row)[nat col := b ! nat row ! nat col + chan]]"
  have step: "add_at b crc = Inr ?b1"
    unfolding crc using Cons.prems(1) rng by (rule add_at_in_range)
  have r1: "rect h w ?b1" using Cons.prems(1) rng by (intro rect_update) auto
  have "\<exists>b'. fill ?b1 cs = Inr b' \<and> rect h w b'"
    using r1 Cons.prems(2) by (intro Cons.IH) auto
  then show ?case using step by simp
qed

lemma rect_replicate: "rect h w (replicate h (replicate w x))"
  by (simp add: rect_def)

lemma rect_rev: "rect h w b \<Longrightarrow> rect h w (rev b)"
  by (simp add: rect_def)

lemma mset_concat_rev: "mset (concat (rev b)) = mset (concat b)"
  by (induction b) simp_all

lemma mset_concat_replicate:
  "mset (concat (replicate h (replicate w x))) = replicate_mset (h * w) x"
  by (rule multiset_eqI) (induction h, simp_all)

lemma shape_rect: "rect h w arr \<Longrightarrow> 0 < h \<Longrightarrow> shape arr = (h, w)"
  by (cases arr) (auto simp: rect_def shape_def)

lemma layout_channel_coords:
  assumes "layout e n f h w"
  shows "channel_coords e n = Inr (map (\<lambda>x. (fst (f x), snd (f x), x)) [1..n])"
  unfolding channel_coords_def
  using assms by (intro collect_all_Inr) (auto simp: layout_def split: prod.splits)

lemma layout_zeros:
  assumes "layout e n f h w"
  defines "coords \<equiv> map (\<lambda>x. (fst (f x), snd (f x), x)) [1..n]"
  shows "\<exists>by_row by_col.
           max_by (\<lambda>(col, row, chan). row) coords = Inr by_row \<and>
           max_by (\<lambda>(col, row, chan). col) coords = Inr by_col \<and>
           np_zeros (fst (snd by_row) + 1) (fst by_col + 1) =
             Inr (replicate h (replicate w 0))"
proof -
  have ne: "coords \<noteq> []" using assms(1) by (simp add: coords_def layout_def)
  have "\<exists>b. max_by (\<lambda>(col, row, chan). row) coords = Inr b \<and> b \<in> set coords \<and>
          (\<lambda>(col, row, chan). row) b = int h - 1"
    using assms(1) ne
    by (intro max_by_key) (auto simp: coords_def layout_def)
  then obtain br where br: "max_by (\<lambda>(col, row, chan). row) coords = Inr br"
    "fst (snd br) = int h - 1" by (auto split: prod.splits)
  have "\<exists>b. max_by (\<lambda>(col, row, chan). col) coords = Inr b \<and> b \<in> set coords \<and>
          (\<lambda>(col, row, chan). col) b = int w - 1"
    using assms(1) ne
    by (intro max_by_key) (auto simp: coords_def layout_def)
  then obtain bc where bc: "max_by (\<lambda>(col, row, chan). col) coords = Inr bc"
    "fst bc = int w - 1" by (auto split: prod.splits)
  show ?thesis using br bc by (simp add: np_zeros_def)
qed

lemma layout_grid:
  assumes "layout e n f h w"
  shows "\<exists>arr. get_flowcell_array e n = Inr arr \<and> rect h w arr \<and> shape arr = (h, w)"
proof -
  let ?coords = "map (\<lambda>x. (fst (f x), snd (f x), x)) [1..n]"
  let ?z = "replicate h (replicate w (0::int))"
  obtain br bc where m: "max_by (\<lambda>(col, row, chan). row) ?coords = Inr br"
    "max_by (\<lambda>(col, row, chan). col) ?coords = Inr bc"
    "np_zeros (fst (snd br) + 1) (fst bc + 1) = Inr ?z"
    using layout_zeros [OF assms] by blast
  have "\<exists>b'. fill ?z ?coords = Inr b' \<and> rect h w b'"
    using assms by (intro fill_rect rect_replicate) (auto simp: layout_def)
  then obtain b' where b': "fill ?z ?coords = Inr b'" "rect h w b'" by blast
  have h: "0 < h" using assms by (auto simp: layout_def)
  have "get_flowcell_array e n = Inr (rev b')"
    by (simp add: get_flowcell_array_def layout_channel_coords [OF assms] m b')
  then show ?thesis using rect_rev [OF b'(2)] shape_rect h by blast
qed

lemma layout_cells:
  assumes "layout e n f h w" and "inj_on f {1..n}" and "get_flowcell_array e n = Inr arr"
  shows "mset (concat arr) + replicate_mset (nat n) 0 = replicate_mset (h * w) 0 + mset [1..n]"
proof -
  let ?coords = "map (\<lambda>x. (fst (f x), snd (f x), x)) [1..n]"
  let ?z = "replicate h (replicate w (0::int))"
  obtain br bc where m: "max_by (\<lambda>(col, row, chan). row) ?coords = Inr br"
    "max_by (\<lambda>(col, row, chan). col) ?coords = Inr bc"
    "np_zeros (fst (snd br) + 1) (fst bc + 1) = Inr ?z"
    using layout_zeros [OF assms(1)] by blast
  have pos: "map (\<lambda>(col, row, chan). (col, row)) ?coords = map f [1..n]"
    by (simp add: comp_def)
  have chans: "map (\<lambda>(col, row, chan). chan) ?coords = [1..n]"
    by (simp add: comp_def)
  have d: "distinct (map (\<lambda>(col, row, chan). (col, row)) ?coords)"
    unfolding pos using assms(2) by (simp add: distinct_map)
  have z: "\<forall>(col, row, chan)\<in>set ?coords. ?z ! nat row ! nat col = 0"
  proof (clarsimp)
    fix x assume "1 \<le> x" "x \<le> n"
    then have "nat (snd (f x)) < h" "nat (fst (f x)) < w"
      using assms(1) by (auto simp: layout_def)
    then show "?z ! nat (snd (f x)) ! nat (fst (f x)) = 0" by simp
  qed
  have "\<exists>b'. fill ?z ?coords = Inr b' \<and> rect h w b' \<and>
           mset (concat b') + replicate_mset (length ?coords) 0 =
             mset (concat ?z) + mset (map (\<lambda>(col, row, chan). chan) ?coords)"
    using assms(1) d z by (intro fill_in_range rect_replicate) (auto simp: layout_def)
  then obtain b' where b': "fill ?z ?coords = Inr b'"
    "mset (concat b') + replicate_mset (length ?coords) 0 =
       mset (concat ?z) + mset (map (\<lambda>(col, row, chan). chan) ?coords)" by blast
  have "get_flowcell_array e n = Inr (rev b')"
    by (simp add: get_flowcell_array_def layout_channel_coords [OF assms(1)] m b')
  then have arr: "arr = rev b'" using assms(3) by simp
  have len: "length ?coords = nat n" using assms(1) by (simp add: layout_def)
  show ?thesis
    using b'(2) unfolding chans len arr mset_concat_rev mset_concat_replicate .
qed

lemma layout_3000: "layout e 3000 promethion_coords 25 120"
proof -
  have a: "\<forall>x. 1 \<le> x \<and> x \<le> 3000 \<longrightarrow>
        get_coords e x 3000 = Inr (promethion_coords x) \<and>
        0 \<le> fst (promethion_coords x) \<and> fst (promethion_coords x) < int 120 \<and>
        0 \<le> snd (promethion_coords x) \<and> snd (promethion_coords x) < int 25"
  proof (intro allI impI conjI)
    fix x :: int assume x: "1 \<le> x \<and> x \<le> 3000"
    show "get_coords e x 3000 = Inr (promethion_coords x)"
      using x by (simp add: get_coords_def promethion_coords_def Let_def)
    have d: "0 \<le> (x - 1) div 250" "(x - 1) div 250 \<le> 11"
      using x zdiv_mono1 [of "x - 1" 2999 250] by (simp_all add: pos_imp_zdiv_nonneg_iff)
    have m: "0 \<le> (x - 1) mod 250 mod 10" "(x - 1) mod 250 mod 10 < 10" by simp_all
    show "0 \<le> fst (promethion_coords x)" using d m by (simp add: promethion_coords_def)
    show "fst (promethion_coords x) < int 120" using d m by (simp add: promethion_coords_def)
    show "0 \<le> snd (promethion_coords x)" by (simp add: promethion_coords_def)
    have "(x - 1) mod 250 < 250" by simp
    then show "snd (promethion_coords x) < int 25" by (simp add: promethion_coords_def)
  qed
  have b: "\<exists>x. 1 \<le> x \<and> x \<le> 3000 \<and> fst (promethion_coords x) = int 120 - 1"
    by (rule exI [of _ 3000]) (simp add: promethion_coords_def)
  have c: "\<exists>x. 1 \<le> x \<and> x \<le> 3000 \<and> snd (promethion_coords x) = int 25 - 1"
    by (rule exI [of _ 241]) (simp add: promethion_coords_def)
  show ?thesis unfolding layout_def using a b c by simp
qed

lemma promethion_coords_inverse:
  "(fst (promethion_coords x) div 10) * 250 + snd (promethion_coords x) * 10
     + fst (promethion_coords x) mod 10 + 1 = x"
proof -
  define q where "q = (x - 1) div 250"
  define r where "r = (x - 1) mod 250"
  have x: "q * 250 + r + 1 = x" by (simp add: q_def r_def)
  have c: "fst (promethion_coords x) = r mod 10 + q * 10"
    and rw: "snd (promethion_coords x) = r div 10"
    by (simp_all add: promethion_coords_def q_def r_def)
  have r10: "0 \<le> r mod 10" "r mod 10 < 10" by simp_all
  have "(r mod 10 + q * 10) div 10 = q" using r10 by simp
  moreover have "(r mod 10 + q * 10) mod 10 = r mod 10" by simp
  moreover have "r div 10 * 10 + r mod 10 = r" by simp
  ultimately show ?thesis unfolding c rw using x by simp
qed

lemma inj_promethion_coords: "inj_on promethion_coords A"
  by (rule inj_onI) (metis promethion_coords_inverse)

lemma concat_slices:
  "concat (map (\<lambda>i. take each (drop (i * each) xs)) [0..<k]) = take (k * each) xs"
proof (induction k)
  case 0
  show ?case by simp
next
  case (Suc k)
  have "take (k * each + each) xs = take (k * each) xs @ take each (drop (k * each) xs)"
    by (rule take_add)
  then have "take (Suc k * each) xs = take (k * each) xs @ take each (drop (k * each) xs)"
    by (simp only: mult_Suc add.commute)
  then show ?case using Suc by simp
qed

lemma mset_concat_map_append:
  "mset (concat (map (\<lambda>i. f i @ g i) is)) =
     mset (concat (map f is)) + mset (concat (map g is))"
  by (induction "is") simp_all

lemma mset_column_blocks:
  assumes "\<forall>r\<in>set arr. length r = k * each"
  shows "mset (concat (map (\<lambda>i. concat (map (\<lambda>r. take each (drop (i * each) r)) arr)) [0..<k]))
           = mset (concat arr)"
  using assms
proof (induction arr)
  case Nil
  show ?case by (induction k) simp_all
next
  case (Cons a arr)
  have "mset (concat (map (\<lambda>i. concat (map (\<lambda>r. take each (drop (i * each) r)) (a # arr))) [0..<k]))
        = mset (concat (map (\<lambda>i. take each (drop (i * each) a)) [0..<k])) +
          mset (concat (map (\<lambda>i. concat (map (\<lambda>r. take each (drop (i * each) r)) arr)) [0..<k]))"
    using mset_concat_map_append
      [of "\<lambda>i. take each (drop (i * each) a)"
          "\<lambda>i. concat (map (\<lambda>r. take each (drop (i * each) r)) arr)" "[0..<k]"]
    by simp
  also have "\<dots> = mset (take (k * each) a) + mset (concat arr)"
    using Cons by (simp add: concat_slices)
  finally show ?case using Cons.prems by simp
qed

lemma concat_map_concat: "concat (map concat xss) = concat (concat xss)"
  by (induction xss) simp_all

lemma py_index_2: "py_index axis 2 = Some ax \<Longrightarrow> ax = 0 \<or> ax = 1"
  by (auto simp: py_index_def split: if_splits)

lemma np_split_blocks:
  assumes "np_split arr sections axis = Inr blocks" and "rect h w arr" and "0 < h"
  shows "length blocks = nat sections \<and> mset (concat (map concat blocks)) = mset (concat arr)"
proof -
  from assms(1) obtain ax where ax: "py_index axis 2 = Some ax"
    by (auto simp: np_split_def split: option.splits)
  have sh: "shape arr = (h, w)" using assms(2,3) by (rule shape_rect)
  define n where "n = (if ax = 0 then h else w)"
  define k where "k = nat sections"
  define each where "each = n div k"
  have pos: "0 < sections" and dv: "int n mod sections = 0"
    and bl: "blocks = map (\<lambda>i. if ax = 0 then take each (drop (i * each) arr)
                             else map (\<lambda>r. take each (drop (i * each) r)) arr) [0..<k]"
    using assms(1) ax unfolding np_split_def sh n_def k_def each_def
    by (auto simp: Let_def split: if_splits)
  have "int n mod int k = 0" using pos dv by (simp add: k_def)
  then have "n mod k = 0" by (metis int_ops(1) of_nat_eq_iff zmod_int)
  then have n: "k * each = n" unfolding each_def by (metis mod_0_imp_dvd dvd_mult_div_cancel)
  have len: "length blocks = nat sections" by (simp add: bl k_def)
  show ?thesis
  proof (cases "ax = 0")
    case True
    then have "concat blocks = take (k * each) arr" by (simp add: bl concat_slices)
    then have "concat blocks = arr" using n True assms(2) by (simp add: n_def rect_def)
    then have "concat (map concat blocks) = concat arr" by (simp add: concat_map_concat)
    then show ?thesis using len by simp
  next
    case False
    then have "\<forall>r\<in>set arr. length r = k * each"
      using n assms(2) by (simp add: n_def rect_def)
    then have "mset (concat (map (\<lambda>i. concat (map (\<lambda>r. take each (drop (i * each) r)) arr)) [0..<k]))
           = mset (concat arr)" by (rule mset_column_blocks)
    then show ?thesis using len False by (simp add: bl comp_def)
  qed
qed

lemma generate_flowcell_split:
  assumes "generate_flowcell e n split axis False = Inr gs"
    and "get_flowcell_array e n = Inr arr" and "rect h w arr" and "0 < h"
  shows "length gs = nat split \<and> 0 < split \<and> mset (concat gs) = mset (concat arr)"
proof -
  have pos: "0 < split" using assms(1,2)
    by (auto simp: generate_flowcell_def split: if_splits)
  obtain blocks where b: "np_split arr split axis = Inr blocks" "gs = map concat blocks"
    using assms(1,2) pos
    by (auto simp: generate_flowcell_def Let_def and_then_Inr_iff split: if_splits)
  show ?thesis using np_split_blocks [OF b(1) assms(3,4)] pos by (simp add: b(2))
qed

lemma generate_flowcell_not_positive:
  "split \<le> 0 \<Longrightarrow> generate_flowcell e n split axis False =
     and_then (get_flowcell_array e n) (\<lambda>arr. Inl SplitNotPositive)"
  by (simp add: generate_flowcell_def)

lemma sorted_range_step2: "sorted (range_step2 start stop) \<and> distinct (range_step2 start stop)"
proof -
  have "sorted_wrt (<) (map (\<lambda>i. start + 2 * int i) [0..<k])" for k
    by (simp add: sorted_wrt_iff_nth_less)
  then show ?thesis
    unfolding range_step2_def by (simp add: strict_sorted_iff)
qed

lemma set_range_step2:
  "set (range_step2 start stop) = {x. start \<le> x \<and> x < stop \<and> even (x - start)}"
proof (intro set_eqI iffI)
  fix x assume "x \<in> set (range_step2 start stop)"
  then obtain i where i: "i < nat ((stop - start + 1) div 2)" "x = start + 2 * int i"
    by (auto simp: range_step2_def)
  then have "int i < (stop - start + 1) div 2" by simp
  then have "2 * int i + 2 \<le> stop - start + 1" by simp
  then show "x \<in> {x. start \<le> x \<and> x < stop \<and> even (x - start)}" using i(2) by simp
next
  fix x assume "x \<in> {x. start \<le> x \<and> x < stop \<and> even (x - start)}"
  then have x: "start \<le> x" "x < stop" "even (x - start)" by simp_all
  define i where "i = nat ((x - start) div 2)"
  have xi: "x = start + 2 * int i" using x(1,3) by (simp add: i_def)
  have "(x - start) div 2 < (stop - start + 1) div 2" using x by presburger
  then have "i < nat ((stop - start + 1) div 2)" using x(1) by (simp add: i_def)
  then show "x \<in> set (range_step2 start stop)"
    unfolding range_step2_def using xi by (auto simp: image_iff)
qed

lemma range_step2_odd: "range_step2 1 (n + 1) = filter odd [1..n]"
proof (rule sorted_distinct_set_unique)
  show "sorted (range_step2 1 (n + 1))" "distinct (range_step2 1 (n + 1))"
    using sorted_range_step2 by blast+
  show "sorted (filter odd [1..n])" by (simp add: sorted_wrt_filter)
  show "distinct (filter odd [1..n])" by simp
  show "set (range_step2 1 (n + 1)) = set (filter odd [1..n])"
    by (auto simp: set_range_step2)
qed

lemma range_step2_even: "range_step2 2 (n + 1) = filter even [1..n]"
proof (rule sorted_distinct_set_unique)
  show "sorted (range_step2 2 (n + 1))" "distinct (range_step2 2 (n + 1))"
    using sorted_range_step2 by blast+
  show "sorted (filter even [1..n])" by (simp add: sorted_wrt_filter)
  show "distinct (filter even [1..n])" by simp
  show "set (range_step2 2 (n + 1)) = set (filter even [1..n])"
    by (auto simp: set_range_step2)
qed

lemma table_covers_entry:
  assumes "table_covers tab n ncols nrows" and "1 \<le> x" and "x \<le> n"
  shows "\<exists>col row. tab x = Some (col, row) \<and>
           0 \<le> col \<and> col < int ncols \<and> 0 \<le> row \<and> row < int nrows"
proof -
  have "case tab x of None \<Rightarrow> False
        | Some (col, row) \<Rightarrow> 0 \<le> col \<and> col < int ncols \<and> 0 \<le> row \<and> row < int nrows"
    using assms by (simp add: table_covers_def)
  then show ?thesis by (cases "tab x") auto
qed

lemma table_covers_last_column:
  assumes "table_covers tab n ncols nrows"
  shows "\<exists>x. 1 \<le> x \<and> x \<le> n \<and> fst (the (tab x)) = int ncols - 1"
proof -
  from assms obtain x where x: "x \<in> {1..n}"
    "case tab x of None \<Rightarrow> False | Some (col, row) \<Rightarrow> col = int ncols - 1"
    unfolding table_covers_def by blast
  from x(2) have "fst (the (tab x)) = int ncols - 1" by (cases "tab x") auto
  then show ?thesis using x(1) by auto
qed

lemma table_covers_last_row:
  assumes "table_covers tab n ncols nrows"
  shows "\<exists>x. 1 \<le> x \<and> x \<le> n \<and> snd (the (tab x)) = int nrows - 1"
proof -
  from assms obtain x where x: "x \<in> {1..n}"
    "case tab x of None \<Rightarrow> False | Some (col, row) \<Rightarrow> row = int nrows - 1"
    unfolding table_covers_def by blast
  from x(2) have "snd (the (tab x)) = int nrows - 1" by (cases "tab x") auto
  then show ?thesis using x(1) by auto
qed

lemma layout_table:
  assumes "table_covers tab n ncols nrows"
    and "\<And>x. 1 \<le> x \<Longrightarrow> x \<le> n \<Longrightarrow> get_coords e x n = table_lookup tab x"
  shows "layout e n (\<lambda>x. the (tab x)) nrows ncols"
proof -
  have a: "get_coords e x n = Inr (the (tab x)) \<and>
        0 \<le> fst (the (tab x)) \<and> fst (the (tab x)) < int ncols \<and>
        0 \<le> snd (the (tab x)) \<and> snd (the (tab x)) < int nrows" if "1 \<le> x \<and> x \<le> n" for x
  proof -
    from that table_covers_entry [OF assms(1), of x] obtain col row
      where "tab x = Some (col, row)"
        "0 \<le> col \<and> col < int ncols \<and> 0 \<le> row \<and> row < int nrows"
      by blast
    then show ?thesis using assms(2) [of x] that by (simp add: table_lookup_def)
  qed
  note b = table_covers_last_column [OF assms(1)]
  note c = table_covers_last_row [OF assms(1)]
  from b have "1 \<le> n" by auto
  then show ?thesis unfolding layout_def using a b c by blast
qed

lemma layout_512:
  "table_covers (MINION_CHANNELS e) 512 32 16 \<Longrightarrow>
   layout e 512 (\<lambda>x. the (MINION_CHANNELS e x)) 16 32"
  by (rule layout_table) (simp_all add: get_coords_def)

lemma layout_126:
  "table_covers (FLONGLE_CHANNELS e) 126 13 10 \<Longrightarrow>
   layout e 126 (\<lambda>x. the (FLONGLE_CHANNELS e x)) 10 13"
  by (rule layout_table) (simp_all add: get_coords_def)

lemma sample_table_covers_512: "table_covers (sample_table 512 32) 512 32 16"
proof -
  have "0 \<le> (x - 1) div 32 \<and> (x - 1) div 32 < 16" if "1 \<le> x" "x \<le> 512" for x :: int
    using that zdiv_mono1 [of "x - 1" 511 32] by (simp add: pos_imp_zdiv_nonneg_iff)
  then have a: "\<forall>x\<in>{1..512}. case sample_table 512 32 x of None \<Rightarrow> False
        | Some (col, row) \<Rightarrow> 0 \<le> col \<and> col < int 32 \<and> 0 \<le> row \<and> row < int 16"
    by (simp add: sample_table_def)
  have b: "\<exists>x\<in>{1..512}. case sample_table 512 32 x of None \<Rightarrow> False
        | Some (col, row) \<Rightarrow> col = int 32 - 1"
    by (rule bexI [of _ 32]) (simp_all add: sample_table_def)
  have c: "\<exists>x\<in>{1..512}. case sample_table 512 32 x of None \<Rightarrow> False
        | Some (col, row) \<Rightarrow> row = int 16 - 1"
    by (rule bexI [of _ 512]) (simp_all add: sample_table_def)
  show ?thesis unfolding table_covers_def using a b c by blast
qed

lemma sample_table_covers_126: "table_covers (sample_table 126 13) 126 13 10"
proof -
  have "0 \<le> (x - 1) div 13 \<and> (x - 1) div 13 < 10" if "1 \<le> x" "x \<le> 126" for x :: int
    using that zdiv_mono1 [of "x - 1" 125 13] by (simp add: pos_imp_zdiv_nonneg_iff)
  then have a: "\<forall>x\<in>{1..126}. case sample_table 126 13 x of None \<Rightarrow> False
        | Some (col, row) \<Rightarrow> 0 \<le> col \<and> col < int 13 \<and> 0 \<le> row \<and> row < int 10"
    by (simp add: sample_table_def)
  have b: "\<exists>x\<in>{1..126}. case sample_table 126 13 x of None \<Rightarrow> False
        | Some (col, row) \<Rightarrow> col = int 13 - 1"
    by (rule bexI [of _ 13]) (simp_all add: sample_table_def)
  have c: "\<exists>x\<in>{1..126}. case sample_table 126 13 x of None \<Rightarrow> False
        | Some (col, row) \<Rightarrow> row = int 10 - 1"
    by (rule bexI [of _ 126]) (simp_all add: sample_table_def)
  show ?thesis unfolding table_covers_def using a b c by blast
qed

lemma sample_env_tables [simp]:
  "FLONGLE_CHANNELS sample_env = sample_table 126 13"
  "MINION_CHANNELS sample_env = sample_table 512 32"
  by (simp_all add: sample_env_def)

lemma channel_coords_unrecognised:
  assumes "1 \<le> n" and "n \<notin> {126, 512, 3000}"
  shows "channel_coords e n = Inl FlowcellSizeNotRecognised"
proof -
  have "[1..n] = 1 # [2..n]" using assms(1) by (simp add: upto_rec1)
  moreover have "get_coords e 1 n = Inl FlowcellSizeNotRecognised"
    using assms by (simp add: get_coords_def)
  ultimately show ?thesis by (simp add: channel_coords_def)
qed

lemma get_flowcell_array_unrecognised:
  "1 \<le> n \<Longrightarrow> n \<notin> {126, 512, 3000} \<Longrightarrow>
   get_flowcell_array e n = Inl FlowcellSizeNotRecognised"
  by (simp add: get_flowcell_array_def channel_coords_unrecognised)

lemma get_flowcell_array_empty:
  "n \<le> 0 \<Longrightarrow> get_flowcell_array e n = Inl MaxEmptySequence"
  by (simp add: get_flowcell_array_def channel_coords_def)

text \<open>
  Where a channel sits in the grid, and the two halves of the 3000 channel grid.
\<close>

lemma add_at_cell:
  assumes "rect h w (b :: int list list)" "0 \<le> col" "col < int w" "0 \<le> row" "row < int h"
    and "add_at b (col, row, chan) = Inr b1" and "r < h" and "c < w"
  shows "b1 ! r ! c = b ! r ! c + (if nat row = r \<and> nat col = c then chan else 0)"
proof -
  have b1: "b1 = b[nat row := (b ! nat row)[nat col := b ! nat row ! nat col + chan]]"
    using add_at_in_range [OF assms(1-5), of chan] assms(6) by simp
  have lr: "nat row < length b" "r < length b" using assms by (simp_all add: rect_def)
  then have lc: "nat col < length (b ! nat row)" using assms by (simp add: rect_def)
  show ?thesis
  proof (cases "nat row = r")
    case True
    then show ?thesis using lr lc assms(8) unfolding b1 by (simp add: nth_list_update)
  next
    case False
    then show ?thesis using lr unfolding b1 by simp
  qed
qed

lemma fill_cell:
  assumes "rect h w (b :: int list list)"
    and "\<forall>(col, row, chan)\<in>set cs. 0 \<le> col \<and> col < int w \<and> 0 \<le> row \<and> row < int h"
    and "fill b cs = Inr b'" and "r < h" and "c < w"
  shows "b' ! r ! c =
           b ! r ! c +
           sum_list (map (\<lambda>(col, row, chan). chan)
                       (filter (\<lambda>(col, row, chan). nat row = r \<and> nat col = c) cs))"
  using assms(1,2,3)
proof (induction cs arbitrary: b)
  case Nil
  then show ?case by simp
next
  case (Cons crc cs)
  obtain col row chan where crc: "crc = (col, row, chan)" by (cases crc) auto
  have rng: "0 \<le> col" "col < int w" "0 \<le> row" "row < int h"
    using Cons.prems(2) by (simp_all add: crc)
  obtain b1 where b1: "add_at b (col, row, chan) = Inr b1" and rest: "fill b1 cs = Inr b'"
    using Cons.prems(3) by (auto simp: crc and_then_Inr_iff)
  have r1: "rect h w b1"
    using add_at_in_range [OF Cons.prems(1) rng, of chan] b1 rect_update [OF Cons.prems(1)] rng
    by auto
  have cell: "b1 ! r ! c = b ! r ! c + (if nat row = r \<and> nat col = c then chan else 0)"
    using add_at_cell [OF Cons.prems(1) rng b1 assms(4,5)] .
  have "b' ! r ! c = b1 ! r ! c +
           sum_list (map (\<lambda>(col, row, chan). chan)
                       (filter (\<lambda>(col, row, chan). nat row = r \<and> nat col = c) cs))"
    using Cons.prems(2) by (intro Cons.IH [OF r1 _ rest]) auto
  then show ?case using cell by (simp add: crc)
qed

lemma filter_eq_single:
  "distinct xs \<Longrightarrow> x \<in> set xs \<Longrightarrow> filter (\<lambda>y. y = x) xs = [x]"
proof (induction xs)
  case Nil
  then show ?case by simp
next
  case (Cons a xs)
  show ?case
  proof (cases "a = x")
    case True
    then have "x \<notin> set xs" using Cons.prems(1) by simp
    then have "filter (\<lambda>y. y = x) xs = []" by (induction xs) auto
    then show ?thesis using True by simp
  next
    case False
    then show ?thesis using Cons by simp
  qed
qed

lemma layout_cell:
  assumes l: "layout e n f h w" and inj: "inj_on f {1..n}"
    and arr: "get_flowcell_array e n = Inr arr" and x: "1 \<le> x" "x \<le> n"
  shows "arr ! (h - 1 - nat (snd (f x))) ! nat (fst (f x)) = x"
proof -
  let ?coords = "map (\<lambda>x. (fst (f x), snd (f x), x)) [1..n]"
  let ?z = "replicate h (replicate w (0::int))"
  obtain br bc where m: "max_by (\<lambda>(col, row, chan). row) ?coords = Inr br"
    "max_by (\<lambda>(col, row, chan). col) ?coords = Inr bc"
    "np_zeros (fst (snd br) + 1) (fst bc + 1) = Inr ?z"
    using layout_zeros [OF l] by blast
  have rng: "\<forall>(col, row, chan)\<in>set ?coords. 0 \<le> col \<and> col < int w \<and> 0 \<le> row \<and> row < int h"
    using l by (auto simp: layout_def)
  obtain b' where b': "fill ?z ?coords = Inr b'" "rect h w b'"
    using fill_rect [OF rect_replicate rng] by blast
  have "get_flowcell_array e n = Inr (rev b')"
    by (simp add: get_flowcell_array_def layout_channel_coords [OF l] m b')
  then have a: "arr = rev b'" using arr by simp
  have fx: "0 \<le> fst (f x)" "fst (f x) < int w" "0 \<le> snd (f x)" "snd (f x) < int h"
    using l x by (auto simp: layout_def)
  define r where "r = nat (snd (f x))"
  define c where "c = nat (fst (f x))"
  have rc: "r < h" "c < w" using fx by (simp_all add: r_def c_def)
  have same: "(nat (snd (f y)) = r \<and> nat (fst (f y)) = c) = (y = x)" if "y \<in> set [1..n]" for y
  proof
    assume eq: "nat (snd (f y)) = r \<and> nat (fst (f y)) = c"
    have "0 \<le> fst (f y)" "0 \<le> snd (f y)" using l that by (auto simp: layout_def)
    then have "fst (f y) = fst (f x)" "snd (f y) = snd (f x)"
      using eq fx unfolding r_def c_def by (auto simp: nat_eq_iff)
    then have "f y = f x" by (simp add: prod_eq_iff)
    then show "y = x" using inj that x by (auto dest: inj_onD)
  next
    assume "y = x"
    then show "nat (snd (f y)) = r \<and> nat (fst (f y)) = c" by (simp add: r_def c_def)
  qed
  have "filter (\<lambda>(col, row, chan). nat row = r \<and> nat col = c) ?coords =
        map (\<lambda>x. (fst (f x), snd (f x), x)) (filter (\<lambda>y. nat (snd (f y)) = r \<and> nat (fst (f y)) = c) [1..n])"
    by (simp add: filter_map comp_def)
  also have "filter (\<lambda>y. nat (snd (f y)) = r \<and> nat (fst (f y)) = c) [1..n] =
             filter (\<lambda>y. y = x) [1..n]"
    using same by (intro filter_cong) auto
  also have "\<dots> = [x]" using x by (intro filter_eq_single) auto
  finally have flt: "filter (\<lambda>(col, row, chan). nat row = r \<and> nat col = c) ?coords =
      [(fst (f x), snd (f x), x)]" by simp
  have "b' ! r ! c = ?z ! r ! c + x"
    using fill_cell [OF rect_replicate rng b'(1) rc] unfolding flt by simp
  then have cell: "b' ! r ! c = x" using rc by simp
  have "length b' = h" using b'(2) by (simp add: rect_def)
  then have "rev b' ! (h - 1 - r) = b' ! r"
    using rc(1) by (simp add: rev_nth)
  then show ?thesis using cell unfolding a r_def c_def by simp
qed

lemma slice_mem:
  assumes "i < length arr" and "k \<le> c" and "c < k + m" and "c < length (arr ! i)"
  shows "arr ! i ! c \<in> set (concat (map (\<lambda>r. take m (drop k r)) arr))"
proof -
  let ?r = "arr ! i"
  have "c - k < length (take m (drop k ?r))" using assms by (simp add: less_diff_conv2) linarith?
  moreover have "take m (drop k ?r) ! (c - k) = ?r ! c" using assms by simp
  ultimately have "?r ! c \<in> set (take m (drop k ?r))" by (metis nth_mem)
  moreover have "?r \<in> set arr" using assms(1) by simp
  ultimately show ?thesis by auto
qed

lemma generate_flowcell_3000_halves:
  "\<exists>arr. get_flowcell_array e 3000 = Inr arr \<and> rect 25 120 arr \<and>
     generate_flowcell e 3000 2 1 False =
       Inr [concat (map (\<lambda>r. take 60 (drop 0 r)) arr),
            concat (map (\<lambda>r. take 60 (drop 60 r)) arr)]"
proof -
  obtain arr where arr: "get_flowcell_array e 3000 = Inr arr" "rect 25 120 arr"
    using layout_grid [OF layout_3000, of e] by blast
  have sh: "shape arr = (25, 120)" using arr(2) by (simp add: shape_rect)
  have up: "[0..<2] = [0, Suc 0]" by (simp add: upt_rec)
  have "np_split arr 2 1 =
      Inr [map (\<lambda>r. take 60 (drop 0 r)) arr, map (\<lambda>r. take 60 (drop 60 r)) arr]"
    by (simp add: np_split_def py_index_def sh Let_def up)
  then have "generate_flowcell e 3000 2 1 False =
       Inr [concat (map (\<lambda>r. take 60 (drop 0 r)) arr),
            concat (map (\<lambda>r. take 60 (drop 60 r)) arr)]"
    by (simp add: generate_flowcell_def arr(1) Let_def)
  then show ?thesis using arr by blast
qed

lemma promethion_halves:
  assumes "generate_flowcell e 3000 2 1 False = Inr gs"
  shows "length gs = 2 \<and> 1 \<in> set (gs ! 0) \<and> 3000 \<in> set (gs ! 1)"
proof -
  obtain arr where arr: "get_flowcell_array e 3000 = Inr arr" "rect 25 120 arr"
    and g: "generate_flowcell e 3000 2 1 False =
       Inr [concat (map (\<lambda>r. take 60 (drop 0 r)) arr),
            concat (map (\<lambda>r. take 60 (drop 60 r)) arr)]"
    using generate_flowcell_3000_halves [of e] by blast
  have gs: "gs = [concat (map (\<lambda>r. take 60 (drop 0 r)) arr),
            concat (map (\<lambda>r. take 60 (drop 60 r)) arr)]"
    using assms g by simp
  have len: "length arr = 25" and rows: "\<And>i. i < 25 \<Longrightarrow> length (arr ! i) = 120"
    using arr(2) by (simp_all add: rect_def)
  have c1: "arr ! (25 - 1 - nat (snd (promethion_coords 1))) ! nat (fst (promethion_coords 1)) = 1"
    using layout_cell [OF layout_3000 inj_promethion_coords arr(1), of 1] by simp
  have c2: "arr ! (25 - 1 - nat (snd (promethion_coords 3000))) !
              nat (fst (promethion_coords 3000)) = 3000"
    using layout_cell [OF layout_3000 inj_promethion_coords arr(1), of 3000] by simp
  have p1: "arr ! 24 ! 0 = 1" using c1 by (simp add: promethion_coords_def)
  have p2: "arr ! 0 ! 119 = 3000" using c2 by (simp add: promethion_coords_def)
  have "arr ! 24 ! 0 \<in> set (concat (map (\<lambda>r. take 60 (drop 0 r)) arr))"
    using len rows [of 24] by (intro slice_mem) simp_all
  moreover have "arr ! 0 ! 119 \<in> set (concat (map (\<lambda>r. take 60 (drop 60 r)) arr))"
    using len rows [of 0] by (intro slice_mem) simp_all
  ultimately show ?thesis unfolding gs p1 p2 by simp
qed

section \<open>Lemmas on \<open>get_targets\<close>\<close>

lemma target_intervals_append_target:
  "target_intervals (append_target t strand ctg iv) strand' ctg' =
     (if strand' = strand \<and> ctg' = ctg
      then Some ((case target_intervals t strand ctg of None \<Rightarrow> [] | Some l \<Rightarrow> l) @ [iv])
      else target_intervals t strand' ctg')"
  by (auto simp: target_intervals_def append_target_def Let_def update_conv'
      split: option.splits)

lemma parse_items_append:
  "parse_items t (xs @ ys) = and_then (parse_items t xs) (\<lambda>t'. parse_items t' ys)"
proof (induction xs arbitrary: t)
  case Nil
  show ?case by simp
next
  case (Cons x xs)
  show ?case
  proof (cases x)
    case (VStr item)
    show ?thesis
      by (cases "parse_item t item") (simp_all add: VStr Cons)
  qed simp_all
qed

lemma parse_item_char:
  "c \<noteq> CHR '','' \<Longrightarrow> parse_item t [c] =
     Inr (append_target (append_target t ''+'' [c] [Fin 0, PosInf]) ''-'' [c] [Fin 0, PosInf])"
  by (simp add: parse_item_def Let_def)

lemma parse_item_comma: "parse_item t '','' = Inr (append_target t [] [] [])"
  by (simp add: parse_item_def Let_def)

lemma parse_items_chars:
  "\<exists>t. parse_items [] (map (\<lambda>c. VStr [c]) s) = Inr t \<and>
     (\<forall>c. c \<noteq> CHR '','' \<longrightarrow>
        target_intervals t ''+'' [c] =
          (if c \<in> set s then Some (replicate (count_list s c) [Fin 0, PosInf]) else None) \<and>
        target_intervals t ''-'' [c] =
          (if c \<in> set s then Some (replicate (count_list s c) [Fin 0, PosInf]) else None)) \<and>
     target_intervals t [] [] =
       (if CHR '','' \<in> set s then Some (replicate (count_list s CHR '','') []) else None)"
proof (induction s rule: rev_induct)
  case Nil
  show ?case by (simp add: target_intervals_def)
next
  case (snoc x s)
  then obtain t where t: "parse_items [] (map (\<lambda>c. VStr [c]) s) = Inr t"
    and plus: "\<And>c. c \<noteq> CHR '','' \<Longrightarrow> target_intervals t ''+'' [c] =
          (if c \<in> set s then Some (replicate (count_list s c) [Fin 0, PosInf]) else None)"
    and minus: "\<And>c. c \<noteq> CHR '','' \<Longrightarrow> target_intervals t ''-'' [c] =
          (if c \<in> set s then Some (replicate (count_list s c) [Fin 0, PosInf]) else None)"
    and comma: "target_intervals t [] [] =
       (if CHR '','' \<in> set s then Some (replicate (count_list s CHR '','') []) else None)"
    by blast
  let ?iv = "[Fin 0, PosInf]"
  define t' where "t' =
    (if x = CHR '','' then append_target t [] [] []
     else append_target (append_target t ''+'' [x] ?iv) ''-'' [x] ?iv)"
  have run: "parse_items [] (map (\<lambda>c. VStr [c]) (s @ [x])) = Inr t'"
    by (simp add: parse_items_append t t'_def parse_item_comma parse_item_char)
  have p: "target_intervals t' ''+'' [c] =
          (if c \<in> set (s @ [x]) then Some (replicate (count_list (s @ [x]) c) ?iv) else None)"
    if "c \<noteq> CHR '',''" for c
    using plus [OF that] plus [of x] that
    by (simp add: t'_def target_intervals_append_target replicate_append_same count_list_0_iff)
  have m: "target_intervals t' ''-'' [c] =
          (if c \<in> set (s @ [x]) then Some (replicate (count_list (s @ [x]) c) ?iv) else None)"
    if "c \<noteq> CHR '',''" for c
    using minus [OF that] minus [of x] that
    by (simp add: t'_def target_intervals_append_target replicate_append_same count_list_0_iff)
  have c: "target_intervals t' [] [] =
       (if CHR '','' \<in> set (s @ [x])
        then Some (replicate (count_list (s @ [x]) CHR '','') []) else None)"
    using comma
    by (simp add: t'_def target_intervals_append_target replicate_append_same count_list_0_iff)
  have pm: "\<forall>c. c \<noteq> CHR '','' \<longrightarrow>
        target_intervals t' ''+'' [c] =
          (if c \<in> set (s @ [x]) then Some (replicate (count_list (s @ [x]) c) ?iv) else None) \<and>
        target_intervals t' ''-'' [c] =
          (if c \<in> set (s @ [x]) then Some (replicate (count_list (s @ [x]) c) ?iv) else None)"
  proof (intro allI impI conjI)
    fix c :: char assume "c \<noteq> CHR '',''"
    then show "target_intervals t' ''+'' [c] =
          (if c \<in> set (s @ [x]) then Some (replicate (count_list (s @ [x]) c) ?iv) else None)"
      and "target_intervals t' ''-'' [c] =
          (if c \<in> set (s @ [x]) then Some (replicate (count_list (s @ [x]) c) ?iv) else None)"
      by (rule p, rule m)
  qed
  show ?case
    by (rule exI [of _ t'], intro conjI) (fact run, fact pm, fact c)
qed

text \<open>
  No string that is found not to be a file makes \<open>get_targets\<close> raise: every character
  other than the comma gets the interval \<open>(0, inf)\<close> on both strands, once per occurrence,
  and every comma adds an empty tuple under the empty strand and contig.
\<close>

lemma get_targets_is_file_error:
  assumes "is_file e s = None"
  shows "get_targets e (VStr s) = Inl OSError"
  using assms by (simp add: get_targets_def target_items_def)

lemma get_targets_plain_string:
  assumes "is_file e s = Some False"
  shows "\<exists>t. get_targets e (VStr s) = Inr t \<and>
     (\<forall>c\<in>set s. c \<noteq> CHR '','' \<longrightarrow>
        target_intervals t ''+'' [c] = Some (replicate (count_list s c) [Fin 0, PosInf]) \<and>
        target_intervals t ''-'' [c] = Some (replicate (count_list s c) [Fin 0, PosInf])) \<and>
     (CHR '','' \<in> set s \<longrightarrow>
        target_intervals t [] [] = Some (replicate (count_list s CHR '','') []))"
proof -
  have "get_targets e (VStr s) = parse_items [] (map (\<lambda>c. VStr [c]) s)"
    using assms by (simp add: get_targets_def target_items_def)
  moreover obtain t where t: "parse_items [] (map (\<lambda>c. VStr [c]) s) = Inr t"
    and pm: "\<forall>c. c \<noteq> CHR '','' \<longrightarrow>
        target_intervals t ''+'' [c] =
          (if c \<in> set s then Some (replicate (count_list s c) [Fin 0, PosInf]) else None) \<and>
        target_intervals t ''-'' [c] =
          (if c \<in> set s then Some (replicate (count_list s c) [Fin 0, PosInf]) else None)"
    and c: "target_intervals t [] [] =
       (if CHR '','' \<in> set s then Some (replicate (count_list s CHR '','') []) else None)"
    using parse_items_chars [of s] by (elim exE conjE)
  ultimately have "get_targets e (VStr s) = Inr t" by simp
  moreover have "\<forall>c\<in>set s. c \<noteq> CHR '','' \<longrightarrow>
        target_intervals t ''+'' [c] = Some (replicate (count_list s c) [Fin 0, PosInf]) \<and>
        target_intervals t ''-'' [c] = Some (replicate (count_list s c) [Fin 0, PosInf])"
    using pm by simp
  moreover have "CHR '','' \<in> set s \<longrightarrow>
        target_intervals t [] [] = Some (replicate (count_list s CHR '','') [])"
    using c by simp
  ultimately show ?thesis by (intro exI [of _ t] conjI)
qed

section \<open>Lemmas on \<open>get_run_info\<close>\<close>

lemma np_split_whole:
  assumes "rect h w arr" and "0 < h"
  shows "\<exists>blocks. np_split arr 1 1 = Inr blocks"
  using shape_rect [OF assms] by (simp add: np_split_def py_index_def Let_def)

lemma generate_flowcell_3000_whole: "\<exists>gs. generate_flowcell e 3000 1 1 False = Inr gs"
proof -
  obtain arr where arr: "get_flowcell_array e 3000 = Inr arr" "rect 25 120 arr"
    using layout_grid [OF layout_3000, of e] by blast
  obtain blocks where "np_split arr 1 1 = Inr blocks"
    using np_split_whole [OF arr(2)] by auto
  then show ?thesis by (simp add: generate_flowcell_def arr(1) Let_def)
qed

lemma map_of_assign:
  "map_of (fold (\<lambda>channel ri. AList.update channel pos ri) channels ri) c =
     (if c \<in> set channels then Some pos else map_of ri c)"
  by (induction channels arbitrary: ri) (simp_all add: update_conv')

lemma distinct_assign:
  "distinct (map fst ri) \<Longrightarrow>
   distinct (map fst (fold (\<lambda>channel ri. AList.update channel pos ri) channels ri))"
  by (induction channels arbitrary: ri) (simp_all add: distinct_update)

lemma assign_groups_distinct:
  "distinct (map fst ri) \<Longrightarrow> distinct (map fst (assign_groups ps ri))"
  unfolding assign_groups_def
  by (induction ps arbitrary: ri) (auto simp: distinct_assign)

lemma assign_groups_sound:
  "map_of (assign_groups ps ri) c = Some i \<Longrightarrow>
   map_of ri c = Some i \<or> (\<exists>chs cond. (i, chs, cond) \<in> set ps \<and> c \<in> set chs)"
  unfolding assign_groups_def
proof (induction ps arbitrary: ri)
  case Nil
  then show ?case by simp
next
  case (Cons p ps)
  obtain pos chs cond where p: "p = (pos, chs, cond)" by (cases p) auto
  let ?ri = "fold (\<lambda>channel ri. AList.update channel pos ri) chs ri"
  from Cons.prems have "map_of (fold (\<lambda>(pos, channels, condition) run_info.
             fold (\<lambda>channel ri. AList.update channel pos ri) channels run_info) ps ?ri) c = Some i"
    by (simp add: p)
  from Cons.IH [OF this]
  have "map_of ?ri c = Some i \<or> (\<exists>chs cond. (i, chs, cond) \<in> set ps \<and> c \<in> set chs)" .
  then show ?case
    by (auto simp: map_of_assign p split: if_splits)
qed

lemma assign_groups_complete:
  "(i, chs, cond) \<in> set ps \<Longrightarrow> c \<in> set chs \<Longrightarrow> \<exists>j. map_of (assign_groups ps ri) c = Some j"
  unfolding assign_groups_def
proof (induction ps arbitrary: ri)
  case Nil
  then show ?case by simp
next
  case (Cons p ps)
  obtain pos' chs' cond' where p: "p = (pos', chs', cond')" by (cases p) auto
  let ?ri = "fold (\<lambda>channel ri. AList.update channel pos' ri) chs' ri"
  let ?f = "\<lambda>(pos, channels, condition) run_info.
             fold (\<lambda>channel ri. AList.update channel pos ri) channels run_info"
  show ?case
  proof (cases "(i, chs, cond) \<in> set ps")
    case True
    from Cons.IH [OF True Cons.prems(2), of ?ri] show ?thesis by (simp add: p)
  next
    case False
    then have eq: "p = (i, chs, cond)" using Cons.prems(1) by simp
    have "map_of ?ri c = Some pos'" using Cons.prems(2) eq p by (simp add: map_of_assign)
    moreover have "map_of ri' c \<noteq> None \<Longrightarrow> map_of (fold ?f ps ri') c \<noteq> None" for ri'
    proof (induction ps arbitrary: ri')
      case Nil
      then show ?case by simp
    next
      case (Cons q qs)
      obtain a b d where q: "q = (a, b, d)" by (cases q) auto
      have "map_of (fold (\<lambda>channel ri. AList.update channel a ri) b ri') c \<noteq> None"
        using Cons.prems by (simp add: map_of_assign)
      from Cons.IH [OF this] show ?case by (simp add: q)
    qed
    ultimately have "map_of (fold ?f ps ?ri) c \<noteq> None" by simp
    then show ?thesis by (auto simp: p)
  qed
qed

lemma build_run_info_assign:
  "build_run_info gs sc = assign_groups (zip [0..<length (zip gs sc)] (zip gs sc)) []"
  by (simp add: build_run_info_def assign_groups_def)

lemma in_enumerate_zip:
  "(i, chs, cond) \<in> set (zip [0..<length (zip gs sc)] (zip gs sc)) \<longleftrightarrow>
     i < length gs \<and> i < length sc \<and> chs = gs ! i \<and> cond = sc ! i"
proof
  assume "(i, chs, cond) \<in> set (zip [0..<length (zip gs sc)] (zip gs sc))"
  then obtain n where n: "[0..<length (zip gs sc)] ! n = i" "zip gs sc ! n = (chs, cond)"
    "n < length (zip gs sc)"
    by (auto simp: in_set_zip)
  then show "i < length gs \<and> i < length sc \<and> chs = gs ! i \<and> cond = sc ! i"
    by auto
next
  assume a: "i < length gs \<and> i < length sc \<and> chs = gs ! i \<and> cond = sc ! i"
  then have "[0..<length (zip gs sc)] ! i = i" "zip gs sc ! i = (chs, cond)"
    "i < length (zip gs sc)" by simp_all
  then show "(i, chs, cond) \<in> set (zip [0..<length (zip gs sc)] (zip gs sc))"
    unfolding in_set_zip by (intro exI [of _ i]) simp
qed

lemma count_list_distinct:
  "distinct xs \<Longrightarrow> x \<in> set xs \<Longrightarrow> count_list xs x = 1"
  by (induction xs) (auto simp: count_list_0_iff)

lemma build_run_info_unique:
  assumes "length sc = length gs" and "i < length gs" and "c \<in> set (gs ! i)"
    and "\<And>j. j < length gs \<Longrightarrow> c \<in> set (gs ! j) \<Longrightarrow> j = i"
  shows "map_of (build_run_info gs sc) c = Some i \<and>
         count_list (map fst (build_run_info gs sc)) c = 1"
proof -
  let ?ps = "zip [0..<length (zip gs sc)] (zip gs sc)"
  have "(i, gs ! i, sc ! i) \<in> set ?ps"
    unfolding in_enumerate_zip using assms(1,2) by simp
  from assign_groups_complete [OF this assms(3), of "[]"]
  obtain j where j: "map_of (build_run_info gs sc) c = Some j"
    by (auto simp: build_run_info_assign)
  then have "\<exists>chs cond. (j, chs, cond) \<in> set ?ps \<and> c \<in> set chs"
    using assign_groups_sound [of ?ps "[]" c j] by (simp add: build_run_info_assign)
  then have "\<exists>chs cond. (j < length gs \<and> j < length sc \<and> chs = gs ! j \<and> cond = sc ! j) \<and>
      c \<in> set chs"
    unfolding in_enumerate_zip .
  then have "j < length gs" "c \<in> set (gs ! j)" by auto
  then have ji: "j = i" by (rule assms(4))
  have d: "distinct (map fst (build_run_info gs sc))"
    unfolding build_run_info_assign by (rule assign_groups_distinct) simp
  have "map_of (build_run_info gs sc) c \<noteq> None" using j by simp
  then have "c \<in> set (map fst (build_run_info gs sc))"
    unfolding map_of_eq_None_iff by simp
  with d have "count_list (map fst (build_run_info gs sc)) c = 1"
    by (rule count_list_distinct)
  then show ?thesis using j ji by simp
qed

lemma collect_length: "collect f xs = Inr ys \<Longrightarrow> length ys = length xs"
proof (induction xs arbitrary: ys)
  case Nil
  then show ?case by simp
next
  case (Cons x xs)
  then obtain y ys' where "f x = Inr y" "collect f xs = Inr ys'" "ys = y # ys'"
    by (auto simp: and_then_Inr_iff)
  then show ?case using Cons.IH by simp
qed

lemma convert_condition_is_dict:
  "convert_condition e v = Inr v' \<Longrightarrow> is_dict v' = is_dict v"
  by (cases v)
    (auto simp: convert_condition_def is_dict_def and_then_Inr_iff split: option.splits)

lemma is_dict_get_default_mem:
  assumes "is_dict (get_default conds k VNone)"
  shows "k \<in> set (map fst conds)"
proof (cases "map_of conds k")
  case None
  then show ?thesis using assms by (simp add: get_default_def is_dict_def)
next
  case (Some v)
  then have "(k, v) \<in> set conds" by (rule map_of_SomeD)
  then show ?thesis by force
qed

lemma get_default_update:
  "get_default (AList.update k v conds) k' dflt =
     (if k' = k then v else get_default conds k' dflt)"
  by (simp add: get_default_def update_conv')

lemma convert_targets_keys:
  "convert_targets e conds ks = (conds', eo) \<Longrightarrow>
   map fst conds' = map fst conds \<and>
   (\<forall>k. is_dict (get_default conds' k VNone) = is_dict (get_default conds k VNone))"
proof (induction ks arbitrary: conds)
  case Nil
  then show ?case by simp
next
  case (Cons k ks)
  show ?case
  proof (cases "convert_condition e (get_default conds k VNone)")
    case (Inl err)
    then show ?thesis using Cons.prems by simp
  next
    case (Inr cond)
    let ?c1 = "if is_dict cond then AList.update k cond conds else conds"
    have d: "is_dict cond = is_dict (get_default conds k VNone)"
      using Inr by (rule convert_condition_is_dict)
    have run: "convert_targets e ?c1 ks = (conds', eo)" using Cons.prems Inr by simp
    have k1: "map fst ?c1 = map fst conds"
      using d is_dict_get_default_mem [of conds k] by (simp add: update_keys)
    have k2: "is_dict (get_default ?c1 k' VNone) = is_dict (get_default conds k' VNone)" for k'
      using d by (simp add: get_default_update)
    from Cons.IH [OF run] show ?thesis using k1 k2 by simp
  qed
qed

lemma mset_sort_func: "mset (sort_func e maintain_order L) = mset L"
proof (cases maintain_order)
  case True
  then show ?thesis by (simp add: sort_func_def)
next
  case False
  let ?zs = "zip L (map (random_draw e) [0..<length L])"
  have fst: "map fst ?zs = L" by (simp add: map_fst_zip)
  have "mset (map fst (sort_key snd ?zs)) = image_mset fst (mset (sort_key snd ?zs))"
    by (simp only: mset_map)
  also have "\<dots> = image_mset fst (mset ?zs)" by (simp only: mset_sort)
  also have "\<dots> = mset (map fst ?zs)" by (simp only: mset_map)
  finally have "mset (map fst (sort_key snd ?zs)) = mset (map fst ?zs)" .
  then have "mset (map fst (sort_key snd ?zs)) = mset L" by (simp only: fst)
  then show ?thesis using False by (simp only: sort_func_def if_False)
qed

lemma length_dict_keys_of_mset:
  "mset ks = mset ks' \<Longrightarrow> length (dict_keys_of conds ks) = length (dict_keys_of conds ks')"
  unfolding dict_keys_of_def
  by (metis mset_filter size_mset)

lemma length_split_conditions:
  assumes "convert_targets e conds ks = (conds', eo)"
  shows "length (dict_keys_of conds' (sort_func e m (map fst conds'))) =
         length (dict_keys_of conds (map fst conds))"
proof -
  have k: "map fst conds' = map fst conds"
    and d: "\<And>k. is_dict (get_default conds' k VNone) = is_dict (get_default conds k VNone)"
    using convert_targets_keys [OF assms] by simp_all
  have "dict_keys_of conds' = dict_keys_of conds"
    by (rule ext) (simp add: dict_keys_of_def d)
  then show ?thesis
    using length_dict_keys_of_mset [OF mset_sort_func, of conds e m "map fst conds"]
    by (simp add: k)
qed

lemma inj_on_the_table:
  assumes "table_covers tab n ncols nrows" and "distinct (map tab [1..n])"
  shows "inj_on (\<lambda>x. the (tab x)) {1..n}"
proof (rule inj_onI)
  fix x y assume x: "x \<in> {1..n}" and y: "y \<in> {1..n}" and eq: "the (tab x) = the (tab y)"
  obtain cx rx where "tab x = Some (cx, rx)"
    using table_covers_entry [OF assms(1), of x] x by auto
  moreover obtain cy ry where "tab y = Some (cy, ry)"
    using table_covers_entry [OF assms(1), of y] y by auto
  ultimately have "tab x = tab y" using eq by simp
  moreover have "inj_on tab (set [1..n])" using assms(2) by (simp add: distinct_map)
  ultimately show "x = y" using x y by (auto dest: inj_onD)
qed

lemma laid_out_layout:
  assumes "channels_laid_out e n"
  shows "\<exists>f h w. layout e n f h w \<and> inj_on f {1..n}"
proof -
  consider "n = 3000"
    | "n = 512" "table_covers (MINION_CHANNELS e) 512 32 16"
        "distinct (map (MINION_CHANNELS e) [1..512])"
    | "n = 126" "table_covers (FLONGLE_CHANNELS e) 126 13 10"
        "distinct (map (FLONGLE_CHANNELS e) [1..126])"
    using assms unfolding channels_laid_out_def by blast
  then show ?thesis
  proof cases
    case 1
    then show ?thesis using layout_3000 [of e] inj_promethion_coords by blast
  next
    case 2
    then show ?thesis using layout_512 [of e] inj_on_the_table [OF 2(2,3)] by blast
  next
    case 3
    then show ?thesis using layout_126 [of e] inj_on_the_table [OF 3(2,3)] by blast
  qed
qed

lemma count_list_upto: "1 \<le> c \<Longrightarrow> c \<le> n \<Longrightarrow> count_list [1..n] c = 1"
  by (rule count_list_distinct) simp_all

lemma grid_split_count:
  assumes "channels_laid_out e n" and "1 \<le> c" and "c \<le> n"
    and "generate_flowcell e n split axis False = Inr gs"
  shows "count_list (concat gs) c = 1 \<and> length gs = nat split \<and> 0 < split"
proof -
  obtain f h w where l: "layout e n f h w" and inj: "inj_on f {1..n}"
    using laid_out_layout [OF assms(1)] by blast
  obtain arr where arr: "get_flowcell_array e n = Inr arr" "rect h w arr"
    using layout_grid [OF l] by blast
  have h: "0 < h" using l by (auto simp: layout_def)
  have cells: "mset (concat arr) + replicate_mset (nat n) 0 =
      replicate_mset (h * w) 0 + mset [1..n]"
    using l inj arr(1) by (rule layout_cells)
  have sp: "length gs = nat split" "0 < split" "mset (concat gs) = mset (concat arr)"
    using generate_flowcell_split [OF assms(4) arr h] by simp_all
  have "count (mset (concat arr) + replicate_mset (nat n) 0) c =
        count (replicate_mset (h * w) 0 + mset [1..n]) c"
    by (simp only: cells)
  then have "count (mset (concat arr)) c = count (mset [1..n]) c"
    using assms(2) by simp
  moreover have "count (mset (concat gs)) c = count (mset (concat arr)) c"
    by (simp only: sp(3))
  ultimately have "count_list (concat gs) c = count_list [1..n] c"
    by (simp only: count_mset)
  then show ?thesis using count_list_upto [OF assms(2,3)] sp by simp
qed

lemma odd_even_count:
  assumes "1 \<le> c" and "c \<le> n"
  shows "count_list (concat [filter odd [1..n], filter even [1..n]]) c = 1"
proof -
  have d: "distinct (filter odd [1..n])" "distinct (filter even [1..n])" by simp_all
  show ?thesis
  proof (cases "odd c")
    case True
    then have "c \<in> set (filter odd [1..n])" "c \<notin> set (filter even [1..n])"
      using assms by simp_all
    then show ?thesis using count_list_distinct [OF d(1)] by (simp add: count_list_0_iff)
  next
    case False
    then have "c \<notin> set (filter odd [1..n])" "c \<in> set (filter even [1..n])"
      using assms by simp_all
    then show ?thesis using count_list_distinct [OF d(2)] by (simp add: count_list_0_iff)
  qed
qed

lemma partition_count:
  assumes "channels_laid_out e n" and "1 \<le> c" and "c \<le> n"
    and "generate_flowcell e n split axis odd_even = Inr gs"
  shows "count_list (concat gs) c = 1"
proof (cases odd_even)
  case True
  then have "gs = [filter odd [1..n], filter even [1..n]]"
    using assms(4) by (simp add: generate_flowcell_def range_step2_odd range_step2_even)
  then show ?thesis using odd_even_count [OF assms(2,3)] by simp
next
  case False
  then show ?thesis using grid_split_count [OF assms(1,2,3)] assms(4) by simp
qed

lemma one_group:
  "count_list (concat gs) c = 1 \<Longrightarrow>
   \<exists>i. i < length gs \<and> c \<in> set (gs ! i) \<and> (\<forall>j. j < length gs \<and> c \<in> set (gs ! j) \<longrightarrow> j = i)"
proof (induction gs)
  case Nil
  then show ?case by simp
next
  case (Cons g gs)
  show ?case
  proof (cases "c \<in> set g")
    case True
    then have "count_list g c \<noteq> 0" by (simp add: count_list_0_iff)
    then have "count_list (concat gs) c = 0" using Cons.prems by simp
    then have "c \<notin> set (concat gs)" by (simp add: count_list_0_iff)
    then have no: "\<And>j. j < length gs \<Longrightarrow> c \<notin> set (gs ! j)" by auto
    have "\<forall>j. j < length (g # gs) \<and> c \<in> set ((g # gs) ! j) \<longrightarrow> j = 0"
    proof (intro allI impI)
      fix j assume j: "j < length (g # gs) \<and> c \<in> set ((g # gs) ! j)"
      show "j = 0"
      proof (cases j)
        case (Suc j')
        then show ?thesis using j no [of j'] by simp
      qed simp
    qed
    then show ?thesis using True by (intro exI [of _ 0]) simp
  next
    case False
    then have "count_list g c = 0" by (simp add: count_list_0_iff)
    then have "count_list (concat gs) c = 1" using Cons.prems by simp
    from Cons.IH [OF this] obtain i where i: "i < length gs" "c \<in> set (gs ! i)"
      "\<forall>j. j < length gs \<and> c \<in> set (gs ! j) \<longrightarrow> j = i" by blast
    have "\<forall>j. j < length (g # gs) \<and> c \<in> set ((g # gs) ! j) \<longrightarrow> j = Suc i"
    proof (intro allI impI)
      fix j assume j: "j < length (g # gs) \<and> c \<in> set ((g # gs) ! j)"
      show "j = Suc i"
      proof (cases j)
        case 0
        then show ?thesis using j False by simp
      next
        case (Suc j')
        then show ?thesis using j i(3) by simp
      qed
    qed
    then show ?thesis using i(1,2) by (intro exI [of _ "Suc i"]) simp
  qed
qed

lemma run_info_of_conditions_cases:
  fixes e conds n
  defines "ks \<equiv> dict_keys_of conds (map fst conds)"
  defines "axis \<equiv> get_default conds ''axis'' (VInt 1)"
  defines "m \<equiv> truthy (get_default conds ''maintain_order'' (VBool True))"
  assumes r: "snd (run_info_of_conditions e conds n) = Inr (ri, sc, reference)"
  shows "\<exists>a gs conds'.
           axis = VInt a \<and>
           generate_flowcell e n (int (length ks)) a False = Inr gs \<and>
           convert_targets e conds ks = (conds', None) \<and>
           collect (\<lambda>k. named_tuple_generator e (get_default conds' k VNone))
             (dict_keys_of conds' (sort_func e m (map fst conds'))) = Inr sc \<and>
           ri = build_run_info gs sc \<and>
           reference = get_default conds' ''reference'' VNone \<and>
           fst (run_info_of_conditions e conds n) = conds'"
proof -
  define gen where "gen = (case axis of
                 VInt a \<Rightarrow> generate_flowcell e n (int (length ks)) a False
               | _ \<Rightarrow> Inl Unmodelled)"
  define rf where "rf = (\<lambda>c. get_default c ''reference'' VNone)"
  define finish where "finish = (\<lambda>split_channels conds'.
      and_then
        (collect (\<lambda>k. named_tuple_generator e (get_default conds' k VNone))
           (dict_keys_of conds' (sort_func e m (map fst conds'))))
        (\<lambda>split_conditions.
           Inr (build_run_info split_channels split_conditions, split_conditions, rf conds')))"
  have unf: "run_info_of_conditions e conds n =
    (case gen of
       Inl err \<Rightarrow> (conds, Inl err)
     | Inr split_channels \<Rightarrow>
         (case convert_targets e conds ks of
            (conds', Some err) \<Rightarrow> (conds', Inl err)
          | (conds', None) \<Rightarrow> (conds', finish split_channels conds')))"
    unfolding run_info_of_conditions_def Let_def gen_def rf_def finish_def ks_def axis_def m_def
    by (rule refl)
  obtain gs where gs: "gen = Inr gs"
    using r unfolding unf by (cases gen) simp_all
  obtain conds' eo where ct: "convert_targets e conds ks = (conds', eo)"
    by (cases "convert_targets e conds ks") auto
  have eo: "eo = None" using r unfolding unf gs ct by (cases eo) simp_all
  have fin: "finish gs conds' = Inr (ri, sc, reference)"
    and st: "fst (run_info_of_conditions e conds n) = conds'"
    using r unfolding unf gs ct eo by simp_all
  obtain a where a: "axis = VInt a" "generate_flowcell e n (int (length ks)) a False = Inr gs"
    using gs unfolding gen_def by (cases axis) simp_all
  have "collect (\<lambda>k. named_tuple_generator e (get_default conds' k VNone))
           (dict_keys_of conds' (sort_func e m (map fst conds'))) = Inr sc \<and>
        ri = build_run_info gs sc \<and> reference = rf conds'"
    using fin unfolding finish_def and_then_Inr_iff by auto
  then show ?thesis using a ct eo st unfolding rf_def by blast
qed

lemma with_conditions_Inr:
  assumes "snd (with_conditions e d n) = Inr r"
  shows "\<exists>conds. map_of d ''conditions'' = Some (VDict conds) \<and>
           snd (run_info_of_conditions e conds n) = Inr r \<and>
           fst (with_conditions e d n) =
             AList.update ''conditions'' (VDict (fst (run_info_of_conditions e conds n))) d"
proof -
  define cv where "cv = map_of d ''conditions''"
  have unf: "with_conditions e d n =
     (case cv of
        None \<Rightarrow> (d, Inl (KeyError ''conditions''))
      | Some (VDict conds) \<Rightarrow>
          (case run_info_of_conditions e conds n of
             (conds', r) \<Rightarrow> (AList.update ''conditions'' (VDict conds') d, r))
      | Some (VTargets _) \<Rightarrow> (d, Inl Unmodelled)
      | Some _ \<Rightarrow> (d, Inl AttributeError))"
    unfolding with_conditions_def cv_def by (rule refl)
  obtain v where v: "cv = Some v" using assms unfolding unf by (cases cv) simp_all
  obtain conds where c: "v = VDict conds" using assms unfolding unf v by (cases v) simp_all
  have "snd (run_info_of_conditions e conds n) = Inr r \<and>
           fst (with_conditions e d n) =
             AList.update ''conditions'' (VDict (fst (run_info_of_conditions e conds n))) d"
    using assms unfolding unf v c by (simp add: case_prod_beta)
  then show ?thesis using v c unfolding cv_def by blast
qed

lemma get_run_info_loaded:
  assumes "snd (get_run_info e cfg n) = Inr r"
  shows "\<exists>d. (cfg = VDict d \<or> (\<not> is_dict cfg \<and> toml_load e cfg = Inr d)) \<and>
           snd (with_conditions e d n) = Inr r"
proof (cases "\<exists>d. cfg = VDict d")
  case True
  then obtain d where d: "cfg = VDict d" by (elim exE)
  then have "snd (with_conditions e d n) = Inr r"
    using assms by (simp add: get_run_info_def case_prod_beta)
  then show ?thesis using d by (intro exI [of _ d]) simp
next
  case False
  have nt: "\<not> is_dict cfg"
  proof
    assume "is_dict cfg"
    then obtain t where "cfg = VTargets t" using False by (cases cfg) (simp_all add: is_dict_def)
    then show False using assms by (simp add: get_run_info_def)
  qed
  have "snd (get_run_info e cfg n) =
      and_then (toml_load e cfg) (\<lambda>toml_dict. snd (with_conditions e toml_dict n))"
    using False nt by (cases cfg) (simp_all add: get_run_info_def is_dict_def)
  then have "and_then (toml_load e cfg) (\<lambda>toml_dict. snd (with_conditions e toml_dict n)) = Inr r"
    using assms by simp
  then obtain d where "toml_load e cfg = Inr d" "snd (with_conditions e d n) = Inr r"
    by (cases "toml_load e cfg") simp_all
  then show ?thesis using nt by (intro exI [of _ d]) simp
qed

lemma run_info_channel_axis:
  assumes lay: "channels_laid_out e n" and c: "1 \<le> c" "c \<le> n"
    and r: "snd (run_info_of_conditions e conds n) = Inr (ri, sc, reference)"
  shows "count_list (map fst ri) c = 1 \<and>
    (\<exists>a gs i. get_default conds ''axis'' (VInt 1) = VInt a \<and>
       length sc = length (dict_keys_of conds (map fst conds)) \<and>
       generate_flowcell e n (int (length sc)) a False = Inr gs \<and>
       i < length gs \<and> c \<in> set (gs ! i) \<and> map_of ri c = Some i)"
proof -
  let ?ks = "dict_keys_of conds (map fst conds)"
  let ?m = "truthy (get_default conds ''maintain_order'' (VBool True))"
  obtain a gs conds' where
    ax: "get_default conds ''axis'' (VInt 1) = VInt a"
    and gen: "generate_flowcell e n (int (length ?ks)) a False = Inr gs"
    and ct: "convert_targets e conds ?ks = (conds', None)"
    and col: "collect (\<lambda>k. named_tuple_generator e (get_default conds' k VNone))
             (dict_keys_of conds' (sort_func e ?m (map fst conds'))) = Inr sc"
    and ri: "ri = build_run_info gs sc"
    using run_info_of_conditions_cases [OF r] by (elim exE conjE)
  have "length sc = length (dict_keys_of conds' (sort_func e ?m (map fst conds')))"
    using col by (rule collect_length)
  then have len: "length sc = length ?ks"
    using length_split_conditions [OF ct] by simp
  have cnt: "count_list (concat gs) c = 1" and lgs: "length gs = nat (int (length ?ks))"
    using grid_split_count [OF lay c gen] by simp_all
  then have lgs': "length sc = length gs" using len by simp
  obtain i where i: "i < length gs" "c \<in> set (gs ! i)"
    "\<forall>j. j < length gs \<and> c \<in> set (gs ! j) \<longrightarrow> j = i"
    using one_group [OF cnt] by (elim exE conjE)
  have u: "\<And>j. j < length gs \<Longrightarrow> c \<in> set (gs ! j) \<Longrightarrow> j = i" using i(3) by blast
  have b: "map_of (build_run_info gs sc) c = Some i \<and>
         count_list (map fst (build_run_info gs sc)) c = 1"
    using lgs' i(1,2) u by (rule build_run_info_unique)
  have g: "generate_flowcell e n (int (length sc)) a False = Inr gs"
    using gen len by simp
  have m: "map_of ri c = Some i" using b ri by simp
  have "get_default conds ''axis'' (VInt 1) = VInt a \<and>
       length sc = length ?ks \<and>
       generate_flowcell e n (int (length sc)) a False = Inr gs \<and>
       i < length gs \<and> c \<in> set (gs ! i) \<and> map_of ri c = Some i"
    by (intro conjI) (fact ax, fact len, fact g, fact i(1), fact i(2), fact m)
  then have "\<exists>a gs i. get_default conds ''axis'' (VInt 1) = VInt a \<and>
       length sc = length ?ks \<and>
       generate_flowcell e n (int (length sc)) a False = Inr gs \<and>
       i < length gs \<and> c \<in> set (gs ! i) \<and> map_of ri c = Some i"
    by (intro exI)
  moreover have "count_list (map fst ri) c = 1" using b ri by simp
  ultimately show ?thesis by (intro conjI)
qed

lemma sample_targets:
  "get_targets e (VList [VStr ''chr1,10,20,+'']) =
     Inr [(''+'', [(''chr1'', [[Fin 10, Fin 20]])])]"
  by (simp add: get_targets_def target_items_def parse_item_def py_int_def
      is_int_space_def digit_val_def append_target_def Let_def)

lemma sample_convert:
  "convert_condition e (VDict [(''name'', VStr ''a''),
                             (''targets'', VList [VStr ''chr1,10,20,+''])]) =
     Inr (VDict sample_condition)"
  by (simp add: convert_condition_def sample_targets sample_condition_def contig_names_def)

lemma sample_fields: "named_tuple_generator sample_env (VDict sample_condition) = Inr sample_condition"
  by (simp add: named_tuple_generator_def sample_condition_def valid_field_name_def
      sample_env_def ascii_identifier_def python_keywords_def)

lemma sample_run:
  assumes "generate_flowcell sample_env 3000 1 1 False = Inr gs"
  shows "get_run_info sample_env sample_config 3000 =
           (sample_config_after, Inr (build_run_info gs [sample_condition], [sample_condition], VNone))"
proof -
  let ?cond = "VDict [(''name'', VStr ''a''), (''targets'', VList [VStr ''chr1,10,20,+''])]"
  let ?conds = "[(''axis'', VInt 1), (''0'', ?cond)]"
  let ?conds' = "[(''axis'', VInt 1), (''0'', VDict sample_condition)]"
  have ks: "dict_keys_of ?conds (map fst ?conds) = [''0'']"
    by (simp add: dict_keys_of_def get_default_def is_dict_def)
  have ct: "convert_targets sample_env ?conds [''0''] = (?conds', None)"
    by (simp add: get_default_def sample_convert is_dict_def)
  have ks': "dict_keys_of ?conds' (sort_func sample_env True (map fst ?conds')) = [''0'']"
    by (simp add: dict_keys_of_def get_default_def is_dict_def sort_func_def)
  have m: "truthy (get_default ?conds ''maintain_order'' (VBool True))"
    by (simp add: get_default_def truthy_def)
  have ax: "get_default ?conds ''axis'' (VInt 1) = VInt 1"
    by (simp add: get_default_def)
  have g0: "get_default ?conds' ''0'' VNone = VDict sample_condition"
    and rf: "get_default ?conds' ''reference'' VNone = VNone"
    by (simp_all add: get_default_def)
  have "run_info_of_conditions sample_env ?conds 3000 =
          (?conds', Inr (build_run_info gs [sample_condition], [sample_condition], VNone))"
  proof -
    have gen: "generate_flowcell sample_env 3000 (int (length [''0''])) 1 False = Inr gs"
      using assms by simp
    have col: "collect (\<lambda>k. named_tuple_generator sample_env (get_default ?conds' k VNone)) [''0'']
        = Inr [sample_condition]"
      by (simp only: collect.simps g0 sample_fields and_then_Inr)
    show ?thesis
      unfolding run_info_of_conditions_def Let_def ks ax
      by (simp only: val.case gen sum.case ct prod.case option.case m ks' col and_then_Inr rf)
  qed
  then show ?thesis
    by (simp add: get_run_info_def with_conditions_def sample_config_def sample_config_after_def
        sample_conditions_def)
qed

lemma sample_targets_b:
  "get_targets e (VList [VStr ''chr2,5,15,-'']) =
     Inr [(''-'', [(''chr2'', [[Fin 5, Fin 15]])])]"
  by (simp add: get_targets_def target_items_def parse_item_def py_int_def
      is_int_space_def digit_val_def append_target_def Let_def)

lemma sample_convert_b:
  "convert_condition e (VDict [(''name'', VStr ''b''),
                             (''targets'', VList [VStr ''chr2,5,15,-''])]) =
     Inr (VDict sample_condition_b)"
  by (simp add: convert_condition_def sample_targets_b sample_condition_b_def contig_names_def)

lemma sample_fields_b:
  "named_tuple_generator sample_env (VDict sample_condition_b) = Inr sample_condition_b"
  by (simp add: named_tuple_generator_def sample_condition_b_def valid_field_name_def
      sample_env_def ascii_identifier_def python_keywords_def)

lemma sample_run2:
  assumes "generate_flowcell sample_env 3000 2 1 False = Inr gs"
  shows "snd (get_run_info sample_env sample_config2 3000) =
           Inr (build_run_info gs [sample_condition, sample_condition_b],
                [sample_condition, sample_condition_b], VNone)"
proof -
  let ?c0 = "VDict [(''name'', VStr ''a''), (''targets'', VList [VStr ''chr1,10,20,+''])]"
  let ?c1 = "VDict [(''name'', VStr ''b''), (''targets'', VList [VStr ''chr2,5,15,-''])]"
  let ?conds = "[(''axis'', VInt 1), (''0'', ?c0), (''1'', ?c1)]"
  let ?conds' = "[(''axis'', VInt 1), (''0'', VDict sample_condition),
                  (''1'', VDict sample_condition_b)]"
  have ks: "dict_keys_of ?conds (map fst ?conds) = [''0'', ''1'']"
    by (simp add: dict_keys_of_def get_default_def is_dict_def)
  have ct: "convert_targets sample_env ?conds [''0'', ''1''] = (?conds', None)"
    by (simp add: get_default_def sample_convert sample_convert_b is_dict_def)
  have ks': "dict_keys_of ?conds' (sort_func sample_env True (map fst ?conds')) = [''0'', ''1'']"
    by (simp add: dict_keys_of_def get_default_def is_dict_def sort_func_def)
  have m: "truthy (get_default ?conds ''maintain_order'' (VBool True))"
    by (simp add: get_default_def truthy_def)
  have ax: "get_default ?conds ''axis'' (VInt 1) = VInt 1"
    by (simp add: get_default_def)
  have g0: "get_default ?conds' ''0'' VNone = VDict sample_condition"
    and g1: "get_default ?conds' ''1'' VNone = VDict sample_condition_b"
    and rf: "get_default ?conds' ''reference'' VNone = VNone"
    by (simp_all add: get_default_def)
  have "run_info_of_conditions sample_env ?conds 3000 =
          (?conds', Inr (build_run_info gs [sample_condition, sample_condition_b],
                         [sample_condition, sample_condition_b], VNone))"
  proof -
    have gen: "generate_flowcell sample_env 3000 (int (length [''0'', ''1''])) 1 False = Inr gs"
      using assms by simp
    have col: "collect (\<lambda>k. named_tuple_generator sample_env (get_default ?conds' k VNone))
                 [''0'', ''1'']
        = Inr [sample_condition, sample_condition_b]"
      by (simp only: collect.simps g0 g1 sample_fields sample_fields_b and_then_Inr)
    show ?thesis
      unfolding run_info_of_conditions_def Let_def ks ax
      by (simp only: val.case gen sum.case ct prod.case option.case m ks' col and_then_Inr rf)
  qed
  then show ?thesis
    by (simp add: get_run_info_def with_conditions_def sample_config2_def sample_conditions2_def)
qed

lemma config_source:
  assumes "VDict d0 = VDict d \<or> (\<not> is_dict (VDict d0) \<and> P)"
  shows "d = d0"
  using assms by (simp add: is_dict_def)

lemma conditions_source:
  assumes "map_of [(k, VDict c0)] k = Some (VDict conds)"
  shows "conds = c0"
  using assms by simp

lemma sample_axis2: "get_default sample_conditions2 ''axis'' (VInt 1) = VInt 1"
  by (simp add: get_default_def sample_conditions2_def)

lemma group_index:
  assumes "\<exists>!i. i < length gs \<and> c \<in> set (gs ! i)"
    and "i < length gs" and "c \<in> set (gs ! i)" and "j < length gs" and "c \<in> set (gs ! j)"
  shows "i = j"
  using assms by (elim ex1E) metis

lemma sample_group:
  assumes gs: "generate_flowcell sample_env 3000 2 1 False = Inr gs"
    and u: "\<exists>!i. i < length gs \<and> c \<in> set (gs ! i)"
    and j: "j < length gs" "c \<in> set (gs ! j)"
    and k: "\<exists>toml_dict conds a groups i.
               (sample_config2 = VDict toml_dict \<or>
                  (\<not> is_dict sample_config2 \<and> toml_load sample_env sample_config2 = Inr toml_dict)) \<and>
               map_of toml_dict ''conditions'' = Some (VDict conds) \<and>
               get_default conds ''axis'' (VInt 1) = VInt a \<and>
               length [sample_condition, sample_condition_b] =
                 length (dict_keys_of conds (map fst conds)) \<and>
               generate_flowcell sample_env 3000
                 (int (length [sample_condition, sample_condition_b])) a False = Inr groups \<and>
               i < length groups \<and> c \<in> set (groups ! i) \<and> map_of ri c = Some i"
  shows "map_of ri c = Some j"
proof -
  obtain d conds a groups i where
    src: "sample_config2 = VDict d \<or>
            (\<not> is_dict sample_config2 \<and> toml_load sample_env sample_config2 = Inr d)"
    and cs: "map_of d ''conditions'' = Some (VDict conds)"
    and ax: "get_default conds ''axis'' (VInt 1) = VInt a"
    and gen: "generate_flowcell sample_env 3000
                 (int (length [sample_condition, sample_condition_b])) a False = Inr groups"
    and i: "i < length groups" "c \<in> set (groups ! i)" "map_of ri c = Some i"
    using k by (elim exE conjE)
  have d: "d = [(''conditions'', VDict sample_conditions2)]"
    using src unfolding sample_config2_def by (rule config_source)
  have "map_of [(''conditions'', VDict sample_conditions2)] ''conditions'' = Some (VDict conds)"
    using cs unfolding d .
  then have c: "conds = sample_conditions2" by (rule conditions_source)
  have a: "a = 1" using ax sample_axis2 unfolding c by simp
  have "generate_flowcell sample_env 3000 2 1 False = Inr groups"
    using gen unfolding a by simp
  then have g: "groups = gs" using gs by simp
  have "i = j" using u i(1,2) j unfolding g by (rule group_index)
  then show ?thesis using i(3) by simp
qed

lemma and_then_Inl_iff:
  "and_then m f = Inl err \<longleftrightarrow> m = Inl err \<or> (\<exists>x. m = Inr x \<and> f x = Inl err)"
  by (cases m) simp_all

lemma collect_Inl: "collect f xs = Inl err \<Longrightarrow> \<exists>x\<in>set xs. f x = Inl err"
  by (induction xs) (auto simp: and_then_Inl_iff)

lemma fill_Inl: "fill b cs = Inl err \<Longrightarrow> err = IndexError"
proof (induction cs arbitrary: b)
  case Nil
  then show ?case by simp
next
  case (Cons crc cs)
  then show ?case
    by (cases crc) (auto simp: and_then_Inl_iff add_at_def split: option.splits)
qed

lemma get_flowcell_array_no_key_error: "get_flowcell_array e n \<noteq> Inl (KeyError k)"
proof
  assume a: "get_flowcell_array e n = Inl (KeyError k)"
  have c: "channel_coords e n \<noteq> Inl (KeyError k)"
  proof
    assume "channel_coords e n = Inl (KeyError k)"
    then obtain x where "and_then (get_coords e x n) (\<lambda>(col, row). Inr (col, row, x)) = Inl (KeyError k)"
      unfolding channel_coords_def by (blast dest: collect_Inl)
    then have "get_coords e x n = Inl (KeyError k)"
      by (auto simp: and_then_Inl_iff split: prod.splits)
    then show False
      by (auto simp: get_coords_def table_lookup_def Let_def split: if_splits option.splits)
  qed
  have m: "max_by key xs \<noteq> Inl (KeyError k)" for key and xs :: "(int \<times> int \<times> int) list"
    by (cases xs) simp_all
  have z: "np_zeros h w \<noteq> Inl (KeyError k)" for h w
    by (simp add: np_zeros_def)
  have f: "fill b cs \<noteq> Inl (KeyError k)" for b cs
    using fill_Inl [of b cs "KeyError k"] by auto
  show False
    using a c m z f unfolding get_flowcell_array_def and_then_Inl_iff by auto
qed

lemma np_split_no_key_error: "np_split arr s a \<noteq> Inl (KeyError k)"
  by (simp add: np_split_def Let_def split: option.splits)

lemma generate_flowcell_no_key_error: "generate_flowcell e n s a oe \<noteq> Inl (KeyError k)"
  using get_flowcell_array_no_key_error [of e n k] np_split_no_key_error
  by (auto simp: generate_flowcell_def and_then_Inl_iff Let_def)

lemma py_int_Inl: "py_int x = Inl err \<Longrightarrow> err = IntLiteralError x"
  by (auto simp: py_int_def Let_def split: list.splits option.splits)

lemma parse_item_no_key_error: "parse_item t item \<noteq> Inl (KeyError k)"
proof
  assume "parse_item t item = Inl (KeyError k)"
  then obtain xs where "collect py_int xs = Inl (KeyError k)"
    unfolding parse_item_def Let_def by (auto simp: and_then_Inl_iff split: if_splits)
  then show False using py_int_Inl by (blast dest: collect_Inl)
qed

lemma parse_items_no_key_error: "parse_items t items \<noteq> Inl (KeyError k)"
proof (induction t items rule: parse_items.induct)
  case (2 t item rest)
  then show ?case using parse_item_no_key_error [of t item k]
    by (auto simp: and_then_Inl_iff)
qed simp_all

lemma get_targets_no_key_error: "get_targets e v \<noteq> Inl (KeyError k)"
proof -
  have "target_items e v \<noteq> Inl (KeyError k)"
    by (cases v) (simp_all add: target_items_def split: option.splits bool.splits)
  then show ?thesis
    using parse_items_no_key_error unfolding get_targets_def and_then_Inl_iff by auto
qed

lemma convert_condition_key_error:
  assumes "convert_condition e v = Inl (KeyError k)"
  shows "k = ''targets''"
proof (cases v)
  case (VDict entries)
  show ?thesis
  proof (cases "map_of entries ''targets''")
    case None
    then show ?thesis using assms VDict by (simp add: convert_condition_def)
  next
    case (Some targets)
    then have "get_targets e targets = Inl (KeyError k)"
      using assms VDict by (simp add: convert_condition_def and_then_Inl_iff)
    then show ?thesis using get_targets_no_key_error by blast
  qed
qed (use assms in \<open>simp_all add: convert_condition_def\<close>)

lemma convert_targets_key_error:
  "convert_targets e conds ks = (conds', Some (KeyError k)) \<Longrightarrow> k = ''targets''"
proof (induction ks arbitrary: conds)
  case Nil
  then show ?case by simp
next
  case (Cons x ks)
  show ?case
  proof (cases "convert_condition e (get_default conds x VNone)")
    case (Inl err)
    then have "err = KeyError k" using Cons.prems by simp
    then show ?thesis using Inl convert_condition_key_error by blast
  next
    case (Inr cond)
    then have "convert_targets e (if is_dict cond then AList.update x cond conds else conds) ks =
        (conds', Some (KeyError k))" using Cons.prems by simp
    then show ?thesis by (rule Cons.IH)
  qed
qed

lemma named_tuple_generator_no_key_error: "named_tuple_generator e v \<noteq> Inl (KeyError k)"
  by (cases v) (simp_all add: named_tuple_generator_def)

lemma run_info_of_conditions_key_error:
  assumes "snd (run_info_of_conditions e conds n) = Inl (KeyError k)"
  shows "k = ''targets''"
proof -
  define ks where "ks = dict_keys_of conds (map fst conds)"
  define axis where "axis = get_default conds ''axis'' (VInt 1)"
  define m where "m = truthy (get_default conds ''maintain_order'' (VBool True))"
  define gen where "gen = (case axis of
                 VInt a \<Rightarrow> generate_flowcell e n (int (length ks)) a False
               | _ \<Rightarrow> Inl Unmodelled)"
  define finish where "finish = (\<lambda>split_channels conds'.
      and_then
        (collect (\<lambda>k. named_tuple_generator e (get_default conds' k VNone))
           (dict_keys_of conds' (sort_func e m (map fst conds'))))
        (\<lambda>split_conditions.
           Inr (build_run_info split_channels split_conditions, split_conditions,
                get_default conds' ''reference'' VNone)))"
  have unf: "run_info_of_conditions e conds n =
    (case gen of
       Inl err \<Rightarrow> (conds, Inl err)
     | Inr split_channels \<Rightarrow>
         (case convert_targets e conds ks of
            (conds', Some err) \<Rightarrow> (conds', Inl err)
          | (conds', None) \<Rightarrow> (conds', finish split_channels conds')))"
    unfolding run_info_of_conditions_def Let_def gen_def finish_def ks_def axis_def m_def
    by (rule refl)
  have g: "gen \<noteq> Inl (KeyError k)"
    unfolding gen_def using generate_flowcell_no_key_error by (cases axis) simp_all
  have f: "finish gs c' \<noteq> Inl (KeyError k)" for gs c'
  proof
    assume "finish gs c' = Inl (KeyError k)"
    then have "collect (\<lambda>k. named_tuple_generator e (get_default c' k VNone))
           (dict_keys_of c' (sort_func e m (map fst c'))) = Inl (KeyError k)"
      unfolding finish_def and_then_Inl_iff by simp
    then show False using named_tuple_generator_no_key_error by (blast dest: collect_Inl)
  qed
  obtain gs where gs: "gen = Inr gs"
    using assms g unfolding unf by (cases gen) simp_all
  obtain conds' eo where ct: "convert_targets e conds ks = (conds', eo)"
    by (cases "convert_targets e conds ks") auto
  show ?thesis
  proof (cases eo)
    case None
    then show ?thesis using assms f [of gs conds'] unfolding unf gs ct by simp
  next
    case (Some err)
    then have "err = KeyError k" using assms unfolding unf gs ct by simp
    then show ?thesis using ct Some convert_targets_key_error by blast
  qed
qed

lemma get_run_info_dict:
  "get_run_info e (VDict d) n = (VDict (fst (with_conditions e d n)), snd (with_conditions e d n))"
  by (simp add: get_run_info_def case_prod_beta)

lemma with_conditions_present:
  assumes "map_of d ''conditions'' = Some (VDict conds)"
  shows "with_conditions e d n =
    (AList.update ''conditions'' (VDict (fst (run_info_of_conditions e conds n))) d,
     snd (run_info_of_conditions e conds n))"
  using assms by (simp add: with_conditions_def case_prod_beta)

lemma with_conditions_absent:
  assumes "map_of d ''conditions'' = None"
  shows "with_conditions e d n = (d, Inl (KeyError ''conditions''))"
  using assms by (simp add: with_conditions_def)






lemma reference_of_result:
  assumes "snd (run_info_of_conditions e conds n) = Inr (ri, sc, rf)"
  shows "rf = get_default conds ''reference'' VNone \<or>
         is_dict (get_default conds ''reference'' VNone)"
proof -
  let ?ks = "dict_keys_of conds (map fst conds)"
  obtain conds' where ct: "convert_targets e conds ?ks = (conds', None)"
    and rf: "rf = get_default conds' ''reference'' VNone"
    using run_info_of_conditions_cases [OF assms] by (elim exE conjE)
  show ?thesis
  proof (cases "is_dict (get_default conds ''reference'' VNone)")
    case True
    then show ?thesis by simp
  next
    case False
    then have "''reference'' \<notin> set ?ks" by (simp add: dict_keys_of_def)
    moreover have "\<And>ks conds. convert_targets e conds ks = (conds', None) \<Longrightarrow>
        ''reference'' \<notin> set ks \<Longrightarrow> map_of conds' ''reference'' = map_of conds ''reference''"
    proof -
      fix ks conds
      show "convert_targets e conds ks = (conds', None) \<Longrightarrow>
        ''reference'' \<notin> set ks \<Longrightarrow> map_of conds' ''reference'' = map_of conds ''reference''"
      proof (induction ks arbitrary: conds)
        case Nil
        then show ?case by simp
      next
        case (Cons x ks)
        obtain v where v: "convert_condition e (get_default conds x VNone) = Inr v"
          using Cons.prems(1) by (cases "convert_condition e (get_default conds x VNone)") simp_all
        define conds1 where "conds1 = (if is_dict v then AList.update x v conds else conds)"
        have run: "convert_targets e conds1 ks = (conds', None)"
          using Cons.prems(1) v by (simp add: conds1_def)
        have "x \<noteq> ''reference''" "''reference'' \<notin> set ks" using Cons.prems(2) by auto
        then have "map_of conds1 ''reference'' = map_of conds ''reference''"
          by (simp add: conds1_def update_conv')
        then show ?case using Cons.IH [OF run] \<open>''reference'' \<notin> set ks\<close> by simp
      qed
    qed
    ultimately have "map_of conds' ''reference'' = map_of conds ''reference''"
      using ct by blast
    then show ?thesis using rf by (simp add: get_default_def)
  qed
qed

lemma sample_laid_out: "channels_laid_out sample_env 3000"
  by (simp add: channels_laid_out_def)

section \<open>Properties of \<open>get_coords\<close>\<close>

text \<open>
  C2. For a channel from 1 to 3000 on a flowcell of size 3000, \<open>get_coords\<close> returns
  \<open>(column, row)\<close> with \<open>block_index = (channel - 1) // 250\<close>,
  \<open>offset = (channel - 1) % 250\<close>, \<open>row = offset // 10\<close> and
  \<open>column = offset % 10 + block_index * 10\<close>. Python's \<open>//\<close> and \<open>%\<close> on
  \<open>int\<close> are HOL's \<open>div\<close> and \<open>mod\<close> on \<open>int\<close> (both round to minus infinity).
\<close>

theorem get_coords_3000:
  assumes "1 \<le> channel" and "channel \<le> 3000"
  shows "get_coords e channel 3000 =
           Inr (((channel - 1) mod 250) mod 10 + ((channel - 1) div 250) * 10,
                ((channel - 1) mod 250) div 10)"
  using assms by (simp add: get_coords_def Let_def)

theorem get_coords_3000_witness:
  "(1::int) \<le> 251 \<and> (251::int) \<le> 3000 \<and> get_coords sample_env 251 3000 = Inr (10, 0)"
  using get_coords_3000 [of 251 sample_env] by simp

text \<open>
  C6, as the code has it. A channel at or below 0 or above the flowcell size is refused
  with the out-of-bounds error whatever the size is; the size is looked at only afterwards,
  so the unrecognised-size error is raised for a size other than 126, 512 and 3000 only
  when the channel is within 1 and the size.
\<close>

theorem get_coords_errors:
  "(channel \<le> 0 \<or> channel > flowcell_size \<longrightarrow>
      get_coords e channel flowcell_size = Inl ChannelOutOfBounds) \<and>
   (flowcell_size \<notin> {126, 512, 3000} \<and> 1 \<le> channel \<and> channel \<le> flowcell_size \<longrightarrow>
      get_coords e channel flowcell_size = Inl FlowcellSizeNotRecognised)"
  by (auto simp: get_coords_def)

theorem get_coords_errors_witness:
  "get_coords sample_env 0 512 = Inl ChannelOutOfBounds \<and>
   get_coords sample_env 513 512 = Inl ChannelOutOfBounds \<and>
   get_coords sample_env 5 128 = Inl FlowcellSizeNotRecognised"
  using get_coords_errors [of 0 512 sample_env] get_coords_errors [of 513 512 sample_env]
    get_coords_errors [of 5 128 sample_env]
  by simp

text \<open>
  C6 as the claim words it fails: on the unrecognised size 128 the channel 0 is refused
  with the out-of-bounds error, not with the unrecognised-size error.
\<close>

theorem get_coords_unrecognised_counterexample:
  "(128::int) \<notin> {126, 512, 3000} \<and>
   get_coords sample_env 0 128 = Inl ChannelOutOfBounds \<and>
   get_coords sample_env 0 128 \<noteq> Inl FlowcellSizeNotRecognised"
  by (simp add: get_coords_def)

section \<open>Properties of \<open>get_flowcell_array\<close> and \<open>generate_flowcell\<close>\<close>

text \<open>
  C7. \<open>get_flowcell_array\<close> returns an array of shape \<open>(25, 120)\<close> for the flowcell
  size 3000, of shape \<open>(16, 32)\<close> for 512 and of shape \<open>(10, 13)\<close> for 126. The
  coordinates of the sizes 512 and 126 are read from the tables of \<open>ru/channels.py\<close>;
  for them the statement holds of every table that gives each channel a cell of the
  32 by 16 (13 by 10) grid and reaches its last column and last row.
\<close>

theorem get_flowcell_array_shape:
  "(\<exists>arr. get_flowcell_array e 3000 = Inr arr \<and> shape arr = (25, 120)) \<and>
   (table_covers (MINION_CHANNELS e) 512 32 16 \<longrightarrow>
      (\<exists>arr. get_flowcell_array e 512 = Inr arr \<and> shape arr = (16, 32))) \<and>
   (table_covers (FLONGLE_CHANNELS e) 126 13 10 \<longrightarrow>
      (\<exists>arr. get_flowcell_array e 126 = Inr arr \<and> shape arr = (10, 13)))"
  using layout_grid [OF layout_3000, of e] layout_grid [OF layout_512, of e]
    layout_grid [OF layout_126, of e]
  by blast

theorem get_flowcell_array_shape_witness:
  "table_covers (MINION_CHANNELS sample_env) 512 32 16 \<and>
   table_covers (FLONGLE_CHANNELS sample_env) 126 13 10 \<and>
   (\<exists>arr. get_flowcell_array sample_env 3000 = Inr arr \<and> shape arr = (25, 120)) \<and>
   (\<exists>arr. get_flowcell_array sample_env 512 = Inr arr \<and> shape arr = (16, 32)) \<and>
   (\<exists>arr. get_flowcell_array sample_env 126 = Inr arr \<and> shape arr = (10, 13))"
  using get_flowcell_array_shape [of sample_env] sample_table_covers_512 sample_table_covers_126
  by simp

text \<open>
  C4, as the code has it. With \<open>odd_even\<close> false the grid is built first and \<open>split\<close>
  is checked afterwards. So for \<open>split \<le> 0\<close> the call fails with the invalid-split
  error whenever the grid can be built, as it can for the sizes 3000, 512 and 126; when
  it cannot, the error of the grid builder is raised instead, which for an unrecognised
  size from 1 up is the unrecognised-size error.
\<close>

theorem generate_flowcell_split_not_positive:
  assumes "split \<le> 0"
  shows "generate_flowcell e 3000 split axis False = Inl SplitNotPositive \<and>
    (table_covers (MINION_CHANNELS e) 512 32 16 \<longrightarrow>
       generate_flowcell e 512 split axis False = Inl SplitNotPositive) \<and>
    (table_covers (FLONGLE_CHANNELS e) 126 13 10 \<longrightarrow>
       generate_flowcell e 126 split axis False = Inl SplitNotPositive) \<and>
    (1 \<le> n \<and> n \<notin> {126, 512, 3000} \<longrightarrow>
       generate_flowcell e n split axis False = Inl FlowcellSizeNotRecognised) \<and>
    (\<forall>arr. get_flowcell_array e n = Inr arr \<longrightarrow>
       generate_flowcell e n split axis False = Inl SplitNotPositive) \<and>
    (\<forall>err. get_flowcell_array e n = Inl err \<longrightarrow>
       generate_flowcell e n split axis False = Inl err)"
  using assms layout_grid [OF layout_3000, of e] layout_grid [OF layout_512, of e]
    layout_grid [OF layout_126, of e] get_flowcell_array_unrecognised [of n e]
  by (auto simp: generate_flowcell_not_positive)

theorem generate_flowcell_split_not_positive_witness:
  "(0::int) \<le> 0 \<and> (1::int) \<le> 128 \<and> (128::int) \<notin> {126, 512, 3000} \<and>
   table_covers (MINION_CHANNELS sample_env) 512 32 16 \<and>
   table_covers (FLONGLE_CHANNELS sample_env) 126 13 10 \<and>
   generate_flowcell sample_env 3000 0 1 False = Inl SplitNotPositive \<and>
   generate_flowcell sample_env 512 0 1 False = Inl SplitNotPositive \<and>
   generate_flowcell sample_env 126 0 1 False = Inl SplitNotPositive \<and>
   generate_flowcell sample_env 128 0 1 False = Inl FlowcellSizeNotRecognised"
  using generate_flowcell_split_not_positive [of 0 sample_env 1 128]
    sample_table_covers_512 sample_table_covers_126
  by simp

text \<open>
  C4 as the claim words it fails: for the unrecognised size 128 and \<open>split = 0\<close> the
  error is the unrecognised-size error of the grid builder, not the invalid-split error.
\<close>

theorem generate_flowcell_split_first_counterexample:
  "(0::int) \<le> 0 \<and>
   generate_flowcell sample_env 128 0 1 False = Inl FlowcellSizeNotRecognised \<and>
   generate_flowcell sample_env 128 0 1 False \<noteq> Inl SplitNotPositive"
  by (simp add: generate_flowcell_not_positive get_flowcell_array_unrecognised)

text \<open>
  C10. With \<open>odd_even\<close> true, \<open>generate_flowcell\<close> never fails, whatever the size,
  \<open>split\<close> and \<open>axis\<close> are: it returns the odd channels of \<open>1 .. flowcell_size\<close> in
  ascending order, then the even ones.
\<close>

theorem generate_flowcell_odd_even:
  "generate_flowcell e flowcell_size split axis True =
     Inr [filter odd [1..flowcell_size], filter even [1..flowcell_size]]"
  by (simp add: generate_flowcell_def range_step2_odd range_step2_even)

section \<open>Properties of \<open>get_targets\<close>\<close>

text \<open>
  C8. For the one descriptor \<open>chr1,10,20,+\<close>, \<open>get_targets\<close> yields the target map
  whose only strand is \<open>+\<close>, with the one interval \<open>(10, 20)\<close> for \<open>chr1\<close>, and no
  entry for the strand \<open>-\<close>; for the descriptor \<open>chr1\<close> without coordinates it
  yields the interval \<open>(0, inf)\<close> for \<open>chr1\<close> on both strands.
\<close>

theorem get_targets_examples:
  "get_targets e (VList [VStr ''chr1,10,20,+'']) =
     Inr [(''+'', [(''chr1'', [[Fin 10, Fin 20]])])] \<and>
   target_intervals [(''+'', [(''chr1'', [[Fin 10, Fin 20]])])] ''+'' ''chr1'' =
     Some [[Fin 10, Fin 20]] \<and>
   map_of [(''+'', [(''chr1'', [[Fin 10, Fin 20 :: bound]])])] ''-'' = None \<and>
   get_targets e (VList [VStr ''chr1'']) =
     Inr [(''+'', [(''chr1'', [[Fin 0, PosInf]])]), (''-'', [(''chr1'', [[Fin 0, PosInf]])])]"
  by (simp add: get_targets_def target_items_def parse_item_def py_int_def
      is_int_space_def digit_val_def append_target_def target_intervals_def Let_def)

text \<open>
  C9. On a string that \<open>Path.is_file\<close> does not find to be a file, the comment in
  \<open>get_targets\<close> asks for an error. The code raises none and runs its loop over the
  characters of the string. On \<open>"a,b"\<close> the letters get the interval \<open>(0, inf)\<close> on
  both strands; the comma gets none, and adds the empty tuple to the contig \<open>""\<close> of the
  strand \<open>""\<close> instead.
\<close>

theorem get_targets_non_file_string:
  "is_file sample_env ''a,b'' = Some False \<and>
   get_targets sample_env (VStr ''a,b'') =
     Inr [(''+'', [(''a'', [[Fin 0, PosInf]]), (''b'', [[Fin 0, PosInf]])]),
          (''-'', [(''a'', [[Fin 0, PosInf]]), (''b'', [[Fin 0, PosInf]])]),
          ([], [([], [[]])])] \<and>
   target_intervals
     [(''+'', [(''a'', [[Fin 0, PosInf]]), (''b'', [[Fin 0, PosInf]])]),
      (''-'', [(''a'', [[Fin 0, PosInf]]), (''b'', [[Fin 0, PosInf]])]),
      ([], [([], [[]])])] ''+'' '','' = None"
  by (simp add: get_targets_def target_items_def parse_item_def append_target_def Let_def
      sample_env_def target_intervals_def)

section \<open>Properties of \<open>get_run_info\<close>\<close>

text \<open>
  C1. Take a flowcell size whose channels have a known place: 3000, or 512 or 126 with its
  table. Whenever \<open>generate_flowcell\<close> succeeds, every channel from 1 to the size occurs
  exactly once in the groups taken together, so it is in exactly one group; and whenever
  \<open>get_run_info\<close> succeeds, every such channel is a key of \<open>run_info\<close> exactly once,
  mapped to the index of the group that holds it. The groups are those of the one call of
  \<open>generate_flowcell\<close> that \<open>get_run_info\<close> makes: for the size given, with one
  group per condition of the configuration (the keys of \<open>conditions\<close> whose value is a
  dict, as many as \<open>split_conditions\<close> has entries), along the \<open>axis\<close> entry of
  \<open>conditions\<close> (1 when there is none), and with \<open>odd_even\<close> off. The
  configuration is the dict given, or what \<open>toml.load\<close> returns when the argument is
  not a dict.
\<close>

theorem channel_in_one_group:
  assumes "channels_laid_out e n" and "1 \<le> c" and "c \<le> n"
  shows "(generate_flowcell e n split axis odd_even = Inr gs \<longrightarrow>
            count_list (concat gs) c = 1 \<and> (\<exists>!i. i < length gs \<and> c \<in> set (gs ! i))) \<and>
         (snd (get_run_info e cfg n) = Inr (run_info, split_conditions, reference) \<longrightarrow>
            count_list (map fst run_info) c = 1 \<and>
            (\<exists>toml_dict conds a groups i.
               (cfg = VDict toml_dict \<or>
                  (\<not> is_dict cfg \<and> toml_load e cfg = Inr toml_dict)) \<and>
               map_of toml_dict ''conditions'' = Some (VDict conds) \<and>
               get_default conds ''axis'' (VInt 1) = VInt a \<and>
               length split_conditions = length (dict_keys_of conds (map fst conds)) \<and>
               generate_flowcell e n (int (length split_conditions)) a False = Inr groups \<and>
               i < length groups \<and> c \<in> set (groups ! i) \<and> map_of run_info c = Some i))"
proof (intro conjI impI)
  assume g: "generate_flowcell e n split axis odd_even = Inr gs"
  show cnt: "count_list (concat gs) c = 1" using partition_count [OF assms g] .
  from one_group [OF cnt] obtain i where i: "i < length gs" "c \<in> set (gs ! i)"
    "\<forall>j. j < length gs \<and> c \<in> set (gs ! j) \<longrightarrow> j = i" by (elim exE conjE)
  have u: "\<And>j. j < length gs \<Longrightarrow> c \<in> set (gs ! j) \<Longrightarrow> j = i" using i(3) by blast
  show "\<exists>!i. i < length gs \<and> c \<in> set (gs ! i)"
  proof (rule ex1I)
    show "i < length gs \<and> c \<in> set (gs ! i)" using i(1,2) by (rule conjI)
  next
    fix j assume "j < length gs \<and> c \<in> set (gs ! j)"
    then show "j = i" using u by (elim conjE)
  qed
next
  assume r: "snd (get_run_info e cfg n) = Inr (run_info, split_conditions, reference)"
  obtain d where src: "cfg = VDict d \<or> (\<not> is_dict cfg \<and> toml_load e cfg = Inr d)"
    and d: "snd (with_conditions e d n) = Inr (run_info, split_conditions, reference)"
    using get_run_info_loaded [OF r] by (elim exE conjE)
  obtain conds where cs: "map_of d ''conditions'' = Some (VDict conds)" and
    rc: "snd (run_info_of_conditions e conds n) = Inr (run_info, split_conditions, reference)"
    using with_conditions_Inr [OF d] by (elim exE conjE)
  note k = run_info_channel_axis [OF assms rc]
  show "count_list (map fst run_info) c = 1" using k by (rule conjunct1)
  obtain a groups i where
    ax: "get_default conds ''axis'' (VInt 1) = VInt a"
    and len: "length split_conditions = length (dict_keys_of conds (map fst conds))"
    and gen: "generate_flowcell e n (int (length split_conditions)) a False = Inr groups"
    and i: "i < length groups" "c \<in> set (groups ! i)" "map_of run_info c = Some i"
    using k [THEN conjunct2] by (elim exE conjE)
  have "(cfg = VDict d \<or> (\<not> is_dict cfg \<and> toml_load e cfg = Inr d)) \<and>
               map_of d ''conditions'' = Some (VDict conds) \<and>
               get_default conds ''axis'' (VInt 1) = VInt a \<and>
               length split_conditions = length (dict_keys_of conds (map fst conds)) \<and>
               generate_flowcell e n (int (length split_conditions)) a False = Inr groups \<and>
               i < length groups \<and> c \<in> set (groups ! i) \<and> map_of run_info c = Some i"
    by (intro conjI) (fact src, fact cs, fact ax, fact len, fact gen, fact i(1), fact i(2), fact i(3))
  then show "\<exists>toml_dict conds a groups i.
               (cfg = VDict toml_dict \<or>
                  (\<not> is_dict cfg \<and> toml_load e cfg = Inr toml_dict)) \<and>
               map_of toml_dict ''conditions'' = Some (VDict conds) \<and>
               get_default conds ''axis'' (VInt 1) = VInt a \<and>
               length split_conditions = length (dict_keys_of conds (map fst conds)) \<and>
               generate_flowcell e n (int (length split_conditions)) a False = Inr groups \<and>
               i < length groups \<and> c \<in> set (groups ! i) \<and> map_of run_info c = Some i"
    by (intro exI)
qed

theorem channel_in_one_group_witness:
  "channels_laid_out sample_env 3000 \<and> (1::int) \<le> 1 \<and> (1::int) \<le> 3000 \<and>
   (3000::int) \<le> 3000 \<and>
   (\<exists>gs. generate_flowcell sample_env 3000 2 1 False = Inr gs \<and>
      count_list (concat gs) 1 = 1 \<and> (\<exists>!i. i < length gs \<and> 1 \<in> set (gs ! i)) \<and>
      count_list (concat gs) 3000 = 1 \<and> (\<exists>!i. i < length gs \<and> 3000 \<in> set (gs ! i)) \<and>
      1 \<in> set (gs ! 0) \<and> 3000 \<in> set (gs ! 1)) \<and>
   get_default sample_conditions2 ''axis'' (VInt 1) = VInt 1 \<and>
   (\<exists>run_info split_conditions reference.
      snd (get_run_info sample_env sample_config2 3000) =
        Inr (run_info, split_conditions, reference) \<and>
      length split_conditions = 2 \<and>
      count_list (map fst run_info) 1 = 1 \<and> map_of run_info 1 = Some 0 \<and>
      count_list (map fst run_info) 3000 = 1 \<and> map_of run_info 3000 = Some 1)"
proof -
  have h1: "(1::int) \<le> 1" and h2: "(1::int) \<le> 3000" and h3: "(3000::int) \<le> 3000"
    by simp_all
  obtain gs where gs: "generate_flowcell sample_env 3000 2 1 False = Inr gs"
    using generate_flowcell_3000_halves [of sample_env] by (elim exE conjE)
  have len: "length gs = 2" and m1: "1 \<in> set (gs ! 0)" and m2: "3000 \<in> set (gs ! 1)"
    using promethion_halves [OF gs] by simp_all
  have l0: "0 < length gs" and l1: "1 < length gs" using len by simp_all
  let ?sc = "[sample_condition, sample_condition_b]"
  let ?ri = "build_run_info gs ?sc"
  have r: "snd (get_run_info sample_env sample_config2 3000) = Inr (?ri, ?sc, VNone)"
    using gs by (rule sample_run2)
  note first = channel_in_one_group [OF sample_laid_out h1 h2,
      of 2 1 False gs sample_config2 "?ri" "?sc" VNone]
  note last = channel_in_one_group [OF sample_laid_out h2 h3,
      of 2 1 False gs sample_config2 "?ri" "?sc" VNone]
  note a1 = first [THEN conjunct1, THEN mp, OF gs]
  note a2 = last [THEN conjunct1, THEN mp, OF gs]
  note b1 = first [THEN conjunct2, THEN mp, OF r]
  note b2 = last [THEN conjunct2, THEN mp, OF r]
  have r1: "map_of ?ri 1 = Some 0"
    using gs a1 [THEN conjunct2] l0 m1 b1 [THEN conjunct2] by (rule sample_group)
  have r2: "map_of ?ri 3000 = Some 1"
    using gs a2 [THEN conjunct2] l1 m2 b2 [THEN conjunct2] by (rule sample_group)
  have A: "\<exists>gs. generate_flowcell sample_env 3000 2 1 False = Inr gs \<and>
      count_list (concat gs) 1 = 1 \<and> (\<exists>!i. i < length gs \<and> 1 \<in> set (gs ! i)) \<and>
      count_list (concat gs) 3000 = 1 \<and> (\<exists>!i. i < length gs \<and> 3000 \<in> set (gs ! i)) \<and>
      1 \<in> set (gs ! 0) \<and> 3000 \<in> set (gs ! 1)"
    by (intro exI [of _ gs] conjI)
      (fact gs, fact a1 [THEN conjunct1], fact a1 [THEN conjunct2],
       fact a2 [THEN conjunct1], fact a2 [THEN conjunct2], fact m1, fact m2)
  have l2: "length ?sc = 2" by simp
  have B: "\<exists>run_info split_conditions reference.
      snd (get_run_info sample_env sample_config2 3000) =
        Inr (run_info, split_conditions, reference) \<and>
      length split_conditions = 2 \<and>
      count_list (map fst run_info) 1 = 1 \<and> map_of run_info 1 = Some 0 \<and>
      count_list (map fst run_info) 3000 = 1 \<and> map_of run_info 3000 = Some 1"
    by (intro exI [of _ ?ri] exI [of _ ?sc] exI [of _ VNone] conjI)
      (fact r, fact l2, fact b1 [THEN conjunct1], fact r1, fact b2 [THEN conjunct1], fact r2)
  show ?thesis
    by (intro conjI) (fact sample_laid_out, fact h1, fact h2, fact h3, fact A, fact sample_axis2,
        fact B)
qed




text \<open>
  C5, as the code has it. \<open>reference\<close> is read with \<open>get\<close>: on a configuration
  whose \<open>conditions\<close> has no \<open>reference\<close>, a build that succeeds returns \<open>None\<close>
  for it, and a build that fails with a missing-key error fails for \<open>targets\<close>, never
  for \<open>reference\<close>.
\<close>

theorem reference_absent:
  assumes "map_of d ''conditions'' = Some (VDict conds)"
    and "map_of conds ''reference'' = None"
  shows "(\<forall>ri sc rf. snd (get_run_info e (VDict d) n) = Inr (ri, sc, rf) \<longrightarrow> rf = VNone) \<and>
         (\<forall>k. snd (get_run_info e (VDict d) n) = Inl (KeyError k) \<longrightarrow> k = ''targets'')"
proof -
  have run: "snd (get_run_info e (VDict d) n) = snd (run_info_of_conditions e conds n)"
    unfolding get_run_info_dict with_conditions_present [OF assms(1)] by simp
  have gd: "get_default conds ''reference'' VNone = VNone"
    using assms(2) by (simp add: get_default_def)
  have a: "rf = VNone" if "snd (run_info_of_conditions e conds n) = Inr (ri, sc, rf)" for ri sc rf
    using reference_of_result [OF that] unfolding gd by (simp add: is_dict_def)
  have b: "k = ''targets''" if "snd (run_info_of_conditions e conds n) = Inl (KeyError k)" for k
    using that by (rule run_info_of_conditions_key_error)
  show ?thesis unfolding run using a b by blast
qed

theorem reference_absent_witness:
  "map_of [(''conditions'', VDict sample_conditions)] ''conditions'' =
     Some (VDict sample_conditions) \<and>
   map_of sample_conditions ''reference'' = None \<and>
   (\<exists>ri sc rf.
      snd (get_run_info sample_env (VDict [(''conditions'', VDict sample_conditions)]) 3000) =
        Inr (ri, sc, rf) \<and> rf = VNone)"
proof -
  have h1: "map_of [(''conditions'', VDict sample_conditions)] ''conditions'' =
     Some (VDict sample_conditions)" by simp
  have h2: "map_of sample_conditions ''reference'' = None" by (simp add: sample_conditions_def)
  obtain gs where "generate_flowcell sample_env 3000 1 1 False = Inr gs"
    using generate_flowcell_3000_whole [of sample_env] by (elim exE)
  then have "\<exists>ri sc rf.
    snd (get_run_info sample_env (VDict [(''conditions'', VDict sample_conditions)]) 3000) =
      Inr (ri, sc, rf)"
    using sample_run unfolding sample_config_def by simp
  then obtain ri sc rf where r:
    "snd (get_run_info sample_env (VDict [(''conditions'', VDict sample_conditions)]) 3000) =
      Inr (ri, sc, rf)" by (elim exE)
  have "rf = VNone"
    using reference_absent [OF h1 h2, of sample_env 3000, THEN conjunct1, rule_format, OF r] .
  with r have "\<exists>ri sc rf.
      snd (get_run_info sample_env (VDict [(''conditions'', VDict sample_conditions)]) 3000) =
        Inr (ri, sc, rf) \<and> rf = VNone" by (intro exI conjI)
  with h1 h2 show ?thesis by (intro conjI)
qed

text \<open>
  C5 as the claim words it fails: the sample configuration has no \<open>reference\<close>, and
  the build succeeds, with \<open>None\<close> as the reference.
\<close>

theorem reference_absent_counterexample:
  "map_of sample_conditions ''reference'' = None \<and>
   sample_config = VDict [(''conditions'', VDict sample_conditions)] \<and>
   \<not> isl (snd (get_run_info sample_env sample_config 3000)) \<and>
   snd (snd (projr (snd (get_run_info sample_env sample_config 3000)))) = VNone"
proof -
  obtain gs where "generate_flowcell sample_env 3000 1 1 False = Inr gs"
    using generate_flowcell_3000_whole [of sample_env] by (elim exE)
  then have "snd (get_run_info sample_env sample_config 3000) =
      Inr (build_run_info gs [sample_condition], [sample_condition], VNone)"
    using sample_run by simp
  then have "\<not> isl (snd (get_run_info sample_env sample_config 3000))"
    "snd (snd (projr (snd (get_run_info sample_env sample_config 3000)))) = VNone"
    by simp_all
  moreover have "map_of sample_conditions ''reference'' = None"
    by (simp add: sample_conditions_def)
  moreover have "sample_config = VDict [(''conditions'', VDict sample_conditions)]"
    by (simp add: sample_config_def)
  ultimately show ?thesis by (intro conjI)
qed

end
